theory Spec2Isabelle
  imports
    Main
    "HOL-Library.Char_ord"
    "HOL-Library.List_Lexorder"
    "HOL-Library.Product_Lexorder"
    "HOL-Library.AList"
begin

section \<open>The static site generator \<open>ssg\<close>: data model and operations\<close>

text \<open>
  A shallow embedding of \<^verbatim>\<open>src/ssg/main.py\<close>. Python strings are byte strings
  (\<open>string\<close>, read as UTF-8, whose lexicographic order is the order of the code points);
  dictionaries are maps or, where the iteration order is visible, association lists with
  distinct keys; every exception the modelled code can raise is a value of \<open>py_error\<close>
  on the left of a sum.
\<close>

datatype py_error =
    TypeError | KeyError | ValueError | IndexError
  | JSONDecodeError | TOMLDecodeError | TemplateError

subsection \<open>Exceptions\<close>

text \<open>Sequencing of two steps of which the first may raise.\<close>

definition and_then :: "py_error + 'a \<Rightarrow> ('a \<Rightarrow> py_error + 'b) \<Rightarrow> py_error + 'b" where
  "and_then m f = (case m of Inl e \<Rightarrow> Inl e | Inr x \<Rightarrow> f x)"

subsection \<open>Strings\<close>

definition endswith :: "string \<Rightarrow> string \<Rightarrow> bool" where
  "endswith s suf = (length suf \<le> length s \<and> drop (length s - length suf) s = suf)"

definition startswith :: "string \<Rightarrow> string \<Rightarrow> bool" where
  "startswith s pre = (take (length pre) s = pre)"

text \<open>
  The characters for which \<^verbatim>\<open>str.isspace\<close> holds: those of ASCII, and the others in
  UTF-8 (U+0085, U+00A0, U+1680, U+2000 to U+200A, U+2028, U+2029, U+202F, U+205F and
  U+3000).
\<close>

definition isspace :: "char \<Rightarrow> bool" where
  "isspace c = (c \<in> {CHR 0x09, CHR 0x0A, CHR 0x0B, CHR 0x0C, CHR 0x0D,
                      CHR 0x1C, CHR 0x1D, CHR 0x1E, CHR 0x1F, CHR 0x20})"

definition unicode_spaces :: "string list" where
  "unicode_spaces =
     [[CHR 0xC2, CHR 0x85], [CHR 0xC2, CHR 0xA0], [CHR 0xE1, CHR 0x9A, CHR 0x80],
      [CHR 0xE2, CHR 0x80, CHR 0x80], [CHR 0xE2, CHR 0x80, CHR 0x81], [CHR 0xE2, CHR 0x80, CHR 0x82],
      [CHR 0xE2, CHR 0x80, CHR 0x83], [CHR 0xE2, CHR 0x80, CHR 0x84], [CHR 0xE2, CHR 0x80, CHR 0x85],
      [CHR 0xE2, CHR 0x80, CHR 0x86], [CHR 0xE2, CHR 0x80, CHR 0x87], [CHR 0xE2, CHR 0x80, CHR 0x88],
      [CHR 0xE2, CHR 0x80, CHR 0x89], [CHR 0xE2, CHR 0x80, CHR 0x8A], [CHR 0xE2, CHR 0x80, CHR 0xA8],
      [CHR 0xE2, CHR 0x80, CHR 0xA9], [CHR 0xE2, CHR 0x80, CHR 0xAF], [CHR 0xE2, CHR 0x81, CHR 0x9F],
      [CHR 0xE3, CHR 0x80, CHR 0x80]]"

text \<open>
  The number of bytes of the whitespace character that a string starts with, or ends with;
  0 when there is none. A character of \<open>unicode_spaces\<close> starts with a lead byte of UTF-8,
  so that the bytes matched at the end of a string are a character of the string.
\<close>

definition space_prefix :: "string \<Rightarrow> nat" where
  "space_prefix s =
     (case s of
        [] \<Rightarrow> 0
      | c # cs \<Rightarrow>
          if isspace c then 1
          else (case find (startswith s) unicode_spaces of
                  Some sp \<Rightarrow> length sp
                | None \<Rightarrow> 0))"

definition space_suffix :: "string \<Rightarrow> nat" where
  "space_suffix s =
     (if s = [] then 0
      else if isspace (last s) then 1
      else (case find (endswith s) unicode_spaces of
              Some sp \<Rightarrow> length sp
            | None \<Rightarrow> 0))"

text \<open>\<^verbatim>\<open>str.strip()\<close>: the whitespace characters are dropped from the left, then from the right.\<close>

function lstrip :: "string \<Rightarrow> string" where
  "lstrip s = (if space_prefix s = 0 then s else lstrip (drop (space_prefix s) s))"
  by pat_completeness auto
termination
  by (relation "measure length") (auto simp: space_prefix_def split: list.splits)

function rstrip :: "string \<Rightarrow> string" where
  "rstrip s = (if space_suffix s = 0 then s else rstrip (take (length s - space_suffix s) s))"
  by pat_completeness auto
termination
  by (relation "measure length") (auto simp: space_suffix_def split: if_splits)

definition strip :: "string \<Rightarrow> string" where
  "strip s = rstrip (lstrip s)"

subsection \<open>Page descriptors: TOML values and weight resolution\<close>

datatype toml_value =
    TString string
  | TInteger int
  | TBoolean bool
  | TFloat
  | TDateTime
  | TArray "toml_value list"
  | TTable "(string \<times> toml_value) list"

text \<open>
  \<^verbatim>\<open>process_weight(toml, page_id)\<close>. \<^verbatim>\<open>toml.get("weight", None)\<close> is \<open>None\<close>
  exactly when the field is absent (TOML has no null). The test
  \<^verbatim>\<open>isinstance(weight, int | None)\<close> also lets the booleans through, \<^verbatim>\<open>bool\<close>
  being a subclass of \<^verbatim>\<open>int\<close>; they count as 1 and 0 in every later comparison.
\<close>

definition process_weight :: "(string \<rightharpoonup> toml_value) \<Rightarrow> string \<Rightarrow> py_error + int option" where
  "process_weight toml page_id =
     (let weight = toml ''weight'';
          weight = (if weight = None \<and> \<not> endswith page_id ''index'' then Some (TInteger 0)
                    else if weight = Some (TString ''None'') then None
                    else weight)
      in case weight of
           None \<Rightarrow> Inr None
         | Some (TInteger n) \<Rightarrow> Inr (Some n)
         | Some (TBoolean b) \<Rightarrow> Inr (Some (if b then 1 else 0))
         | Some _ \<Rightarrow> Inl TypeError)"

text \<open>
  The specification's wording, for comparison with \<open>endswith\<close>: the last path segment
  of a page id is what follows its last slash.
\<close>

definition last_path_segment :: "string \<Rightarrow> string" where
  "last_path_segment page_id = rev (takeWhile (\<lambda>c. c \<noteq> CHR ''/'') (rev page_id))"

subsection \<open>Paths and versioned assets\<close>

text \<open>
  A path is the string of a normalised relative \<^verbatim>\<open>pathlib.Path\<close>, as the tree walk
  produces them. \<open>path_name\<close>, \<open>path_suffix\<close>, \<open>path_suffixes\<close> and \<open>with_suffix\<close>
  follow the properties \<^verbatim>\<open>name\<close>, \<^verbatim>\<open>suffix\<close>, \<^verbatim>\<open>suffixes\<close> and the method
  \<^verbatim>\<open>with_suffix\<close> of \<^verbatim>\<open>PurePosixPath\<close> (CPython 3.12).
\<close>

definition path_name :: "string \<Rightarrow> string" where
  "path_name p = rev (takeWhile (\<lambda>c. c \<noteq> CHR ''/'') (rev p))"

definition path_parent :: "string \<Rightarrow> string" where
  \<comment> \<open>everything up to and including the last slash\<close>
  "path_parent p = rev (dropWhile (\<lambda>c. c \<noteq> CHR ''/'') (rev p))"

definition rfind :: "char \<Rightarrow> string \<Rightarrow> int" where
  "rfind c s =
     (if c \<in> set s then int (length s) - 1 - int (length (takeWhile (\<lambda>x. x \<noteq> c) (rev s)))
      else - 1)"

fun split_on :: "char \<Rightarrow> string \<Rightarrow> string list" where
  "split_on c [] = [[]]"
| "split_on c (x # xs) =
     (if x = c then [] # split_on c xs
      else (case split_on c xs of p # ps \<Rightarrow> (x # p) # ps | [] \<Rightarrow> [[x]]))"

definition name_suffix :: "string \<Rightarrow> string" where
  "name_suffix name =
     (let i = rfind (CHR ''.'') name
      in if 0 < i \<and> i < int (length name) - 1 then drop (nat i) name else [])"

definition path_suffix :: "string \<Rightarrow> string" where
  "path_suffix p = name_suffix (path_name p)"

definition path_suffixes :: "string \<Rightarrow> string list" where
  "path_suffixes p =
     (let name = path_name p
      in if endswith name ''.'' then []
         else map (\<lambda>suffix. CHR ''.'' # suffix)
                (tl (split_on (CHR ''.'') (dropWhile (\<lambda>c. c = CHR ''.'') name))))"

definition with_suffix :: "string \<Rightarrow> string \<Rightarrow> py_error + string" where
  "with_suffix p suffix =
     (if CHR ''/'' \<in> set suffix then Inl ValueError
      else if (suffix \<noteq> [] \<and> \<not> startswith suffix ''.'') \<or> suffix = ''.'' then Inl ValueError
      else let name = path_name p in
        if name = [] then Inl ValueError
        else let old_suffix = name_suffix name in
          if old_suffix = [] then Inr (path_parent p @ name @ suffix)
          else Inr (path_parent p @ take (length name - length old_suffix) name @ suffix))"

text \<open>
  \<^verbatim>\<open>int(s)\<close> on a string, base 10. The characters beyond ASCII are replaced first
  (\<open>to_ascii\<close>): a whitespace character by a space, a decimal digit by its ASCII digit
  (the digits of Unicode 14.0, the table of CPython 3.11, each block given by the UTF-8
  form of its zero), and the first character that is neither ends the string with a
  question mark, which no numeral contains. Then the white space of C is dropped at both
  ends (\<open>c_isspace\<close>, without the separators \<^verbatim>\<open>0x1C\<close> to \<^verbatim>\<open>0x1F\<close>), one sign is
  allowed, and decimal digits follow with single underscores between them. The limit that
  \<^verbatim>\<open>int\<close> puts on the number of digits (4300 unless configured otherwise) is not
  modelled: the names of files are shorter.
\<close>

definition c_isspace :: "char \<Rightarrow> bool" where
  "c_isspace c = (c \<in> {CHR 0x09, CHR 0x0A, CHR 0x0B, CHR 0x0C, CHR 0x0D, CHR 0x20})"

definition unicode_zeros :: "string list" where
  "unicode_zeros =
     [[CHR 0xD9, CHR 0xA0], [CHR 0xDB, CHR 0xB0], [CHR 0xDF, CHR 0x80],
      [CHR 0xE0, CHR 0xA5, CHR 0xA6], [CHR 0xE0, CHR 0xA7, CHR 0xA6], [CHR 0xE0, CHR 0xA9, CHR 0xA6],
      [CHR 0xE0, CHR 0xAB, CHR 0xA6], [CHR 0xE0, CHR 0xAD, CHR 0xA6], [CHR 0xE0, CHR 0xAF, CHR 0xA6],
      [CHR 0xE0, CHR 0xB1, CHR 0xA6], [CHR 0xE0, CHR 0xB3, CHR 0xA6], [CHR 0xE0, CHR 0xB5, CHR 0xA6],
      [CHR 0xE0, CHR 0xB7, CHR 0xA6], [CHR 0xE0, CHR 0xB9, CHR 0x90], [CHR 0xE0, CHR 0xBB, CHR 0x90],
      [CHR 0xE0, CHR 0xBC, CHR 0xA0], [CHR 0xE1, CHR 0x81, CHR 0x80], [CHR 0xE1, CHR 0x82, CHR 0x90],
      [CHR 0xE1, CHR 0x9F, CHR 0xA0], [CHR 0xE1, CHR 0xA0, CHR 0x90], [CHR 0xE1, CHR 0xA5, CHR 0x86],
      [CHR 0xE1, CHR 0xA7, CHR 0x90], [CHR 0xE1, CHR 0xAA, CHR 0x80], [CHR 0xE1, CHR 0xAA, CHR 0x90],
      [CHR 0xE1, CHR 0xAD, CHR 0x90], [CHR 0xE1, CHR 0xAE, CHR 0xB0], [CHR 0xE1, CHR 0xB1, CHR 0x80],
      [CHR 0xE1, CHR 0xB1, CHR 0x90], [CHR 0xEA, CHR 0x98, CHR 0xA0], [CHR 0xEA, CHR 0xA3, CHR 0x90],
      [CHR 0xEA, CHR 0xA4, CHR 0x80], [CHR 0xEA, CHR 0xA7, CHR 0x90], [CHR 0xEA, CHR 0xA7, CHR 0xB0],
      [CHR 0xEA, CHR 0xA9, CHR 0x90], [CHR 0xEA, CHR 0xAF, CHR 0xB0], [CHR 0xEF, CHR 0xBC, CHR 0x90],
      [CHR 0xF0, CHR 0x90, CHR 0x92, CHR 0xA0], [CHR 0xF0, CHR 0x90, CHR 0xB4, CHR 0xB0], [CHR 0xF0, CHR 0x91, CHR 0x81, CHR 0xA6],
      [CHR 0xF0, CHR 0x91, CHR 0x83, CHR 0xB0], [CHR 0xF0, CHR 0x91, CHR 0x84, CHR 0xB6], [CHR 0xF0, CHR 0x91, CHR 0x87, CHR 0x90],
      [CHR 0xF0, CHR 0x91, CHR 0x8B, CHR 0xB0], [CHR 0xF0, CHR 0x91, CHR 0x91, CHR 0x90], [CHR 0xF0, CHR 0x91, CHR 0x93, CHR 0x90],
      [CHR 0xF0, CHR 0x91, CHR 0x99, CHR 0x90], [CHR 0xF0, CHR 0x91, CHR 0x9B, CHR 0x80], [CHR 0xF0, CHR 0x91, CHR 0x9C, CHR 0xB0],
      [CHR 0xF0, CHR 0x91, CHR 0xA3, CHR 0xA0], [CHR 0xF0, CHR 0x91, CHR 0xA5, CHR 0x90], [CHR 0xF0, CHR 0x91, CHR 0xB1, CHR 0x90],
      [CHR 0xF0, CHR 0x91, CHR 0xB5, CHR 0x90], [CHR 0xF0, CHR 0x91, CHR 0xB6, CHR 0xA0], [CHR 0xF0, CHR 0x96, CHR 0xA9, CHR 0xA0],
      [CHR 0xF0, CHR 0x96, CHR 0xAB, CHR 0x80], [CHR 0xF0, CHR 0x96, CHR 0xAD, CHR 0x90], [CHR 0xF0, CHR 0x9D, CHR 0x9F, CHR 0x8E],
      [CHR 0xF0, CHR 0x9D, CHR 0x9F, CHR 0x98], [CHR 0xF0, CHR 0x9D, CHR 0x9F, CHR 0xA2], [CHR 0xF0, CHR 0x9D, CHR 0x9F, CHR 0xAC],
      [CHR 0xF0, CHR 0x9D, CHR 0x9F, CHR 0xB6], [CHR 0xF0, CHR 0x9E, CHR 0x85, CHR 0x80], [CHR 0xF0, CHR 0x9E, CHR 0x8B, CHR 0xB0],
      [CHR 0xF0, CHR 0x9E, CHR 0xA5, CHR 0x90], [CHR 0xF0, CHR 0x9F, CHR 0xAF, CHR 0xB0]]"

definition decimal_prefix :: "string \<Rightarrow> (char \<times> nat) option" where
  \<comment> \<open>the ASCII digit and the number of bytes of the decimal digit that a string starts with\<close>
  "decimal_prefix s =
     (case find (\<lambda>z. length z \<le> length s \<and> take (length z - 1) s = butlast z \<and>
                      (of_char (last z) :: nat) \<le> of_char (s ! (length z - 1)) \<and>
                      (of_char (s ! (length z - 1)) :: nat) \<le> of_char (last z) + 9)
             unicode_zeros of
        Some z \<Rightarrow> Some (char_of (48 + (of_char (s ! (length z - 1)) - of_char (last z) :: nat)), length z)
      | None \<Rightarrow> None)"

fun to_ascii :: "string \<Rightarrow> string" where
  "to_ascii [] = []"
| "to_ascii (c # cs) =
     (if (of_char c :: nat) < 127 then c # to_ascii cs
      else if space_prefix (c # cs) \<noteq> 0
      then CHR '' '' # to_ascii (drop (space_prefix (c # cs) - 1) cs)
      else (case decimal_prefix (c # cs) of
              Some (d, n) \<Rightarrow> d # to_ascii (drop (n - 1) cs)
            | None \<Rightarrow> ''?''))"

definition is_digit :: "char \<Rightarrow> bool" where
  "is_digit c = (CHR ''0'' \<le> c \<and> c \<le> CHR ''9'')"

definition digit_value :: "char \<Rightarrow> int" where
  "digit_value c = int (of_char c) - 48"

definition decimal :: "string \<Rightarrow> int" where
  "decimal ds = foldl (\<lambda>a c. 10 * a + digit_value c) 0 ds"

fun digit_groups :: "string \<Rightarrow> string option" where
  "digit_groups [] = None"
| "digit_groups [c] = (if is_digit c then Some [c] else None)"
| "digit_groups (c # d # cs) =
     (if \<not> is_digit c then None
      else if d = CHR ''_'' then map_option ((#) c) (digit_groups cs)
      else map_option ((#) c) (digit_groups (d # cs)))"

definition py_int :: "string \<Rightarrow> py_error + int" where
  "py_int s =
     (let t = rev (dropWhile c_isspace (rev (dropWhile c_isspace (to_ascii s))));
          (sign, body) = (case t of
                            c # r \<Rightarrow> if c = CHR ''-'' then (- 1, r)
                                     else if c = CHR ''+'' then (1, r) else (1, t)
                          | [] \<Rightarrow> (1, t))
      in case digit_groups body of
           None \<Rightarrow> Inl ValueError
         | Some ds \<Rightarrow> Inr (sign * decimal ds))"

text \<open>
  The body of the \<^verbatim>\<open>try\<close> block of \<^verbatim>\<open>process_versioned\<close> up to the comparison:
  \<^verbatim>\<open>path.suffixes[-2]\<close> raises \<^verbatim>\<open>IndexError\<close> when there are fewer than two suffixes,
  \<^verbatim>\<open>int\<close> and \<^verbatim>\<open>with_suffix\<close> raise \<^verbatim>\<open>ValueError\<close>.
\<close>

definition version_and_key :: "string \<Rightarrow> py_error + (int \<times> string)" where
  "version_and_key path =
     (let sfx = path_suffixes path in
      if length sfx < 2 then Inl IndexError
      else case py_int (drop 1 (sfx ! (length sfx - 2))) of
             Inl e \<Rightarrow> Inl e
           | Inr version \<Rightarrow>
               (case with_suffix path [] of
                  Inl e \<Rightarrow> Inl e
                | Inr stripped \<Rightarrow>
                    (case with_suffix stripped (path_suffix path) of
                       Inl e \<Rightarrow> Inl e
                     | Inr key \<Rightarrow> Inr (version, key))))"

text \<open>
  \<^verbatim>\<open>process_versioned(path, max_version)\<close>: the dictionary is mutated in place, the
  model returns it. Both exceptions of the \<^verbatim>\<open>try\<close> block are caught and dropped.
\<close>

definition process_versioned :: "string \<Rightarrow> (string \<rightharpoonup> int) \<Rightarrow> (string \<rightharpoonup> int)" where
  "process_versioned path max_version =
     (case version_and_key path of
        Inl e \<Rightarrow> max_version
      | Inr (version, key) \<Rightarrow>
          if version > (case max_version key of None \<Rightarrow> 0 | Some v \<Rightarrow> v)
          then max_version(key \<mapsto> version)
          else max_version)"

text \<open>
  The part of the walk of \<^verbatim>\<open>build_library\<close> that feeds the version map: every file that
  is not a page descriptor is passed to \<^verbatim>\<open>process_versioned\<close>, in the order of the walk,
  starting from the empty dictionary.
\<close>

definition walk_versioned :: "string list \<Rightarrow> (string \<rightharpoonup> int)" where
  "walk_versioned relpaths =
     fold process_versioned (filter (\<lambda>p. path_suffix p \<noteq> ''.page'') relpaths) Map.empty"

text \<open>
  For the statement of what the walk records: the versions that the walked files carry for
  one key, in the order of the walk.
\<close>

definition versions_seen :: "string \<Rightarrow> string list \<Rightarrow> int list" where
  "versions_seen key relpaths =
     List.map_filter
       (\<lambda>p. if path_suffix p = ''.page'' then None
            else (case version_and_key p of
                    Inr (version, k) \<Rightarrow> if k = key then Some version else None
                  | Inl e \<Rightarrow> None))
       relpaths"

definition highest_positive :: "int list \<Rightarrow> int option" where
  "highest_positive vs = (if vs \<noteq> [] \<and> 0 < Max (set vs) then Some (Max (set vs)) else None)"

subsection \<open>Pages\<close>

text \<open>
  The named tuple \<^verbatim>\<open>Page\<close>. The type parameter stands for the decoded content and the
  free-form data, which the library builder carries and never inspects. A new page has the
  defaults \<^verbatim>\<open>siblings=[]\<close>, \<^verbatim>\<open>lighter=None\<close>, \<^verbatim>\<open>heavier=None\<close>. The dictionary of
  pages is an association list with distinct keys, in insertion order.
\<close>

record 'c Page =
  id' :: string
  path :: "string option"
  dir :: string
  filename :: "string option"
  subdirs :: "string list"
  content :: "(string \<times> 'c) list"
  data :: "(string \<times> 'c) list"
  tags :: "string list"
  weight :: "int option"
  siblings :: "string list"
  lighter :: "string option"
  heavier :: "string option"

type_synonym 'c pages = "(string \<times> 'c Page) list"

definition new_page ::
  "string \<Rightarrow> string option \<Rightarrow> string \<Rightarrow> string option \<Rightarrow> string list \<Rightarrow> (string \<times> 'c) list \<Rightarrow>
   (string \<times> 'c) list \<Rightarrow> string list \<Rightarrow> int option \<Rightarrow> 'c Page" where
  "new_page i p d f sd c dt tg w =
     \<lparr>id' = i, path = p, dir = d, filename = f, subdirs = sd, content = c, data = dt,
      tags = tg, weight = w, siblings = [], lighter = None, heavier = None\<rparr>"

text \<open>Truth value of an optional string: \<^verbatim>\<open>None\<close> and the empty string are false.\<close>

definition truthy :: "string option \<Rightarrow> bool" where
  "truthy p = (case p of None \<Rightarrow> False | Some s \<Rightarrow> s \<noteq> [])"

text \<open>\<^verbatim>\<open>os.path.dirname\<close> of \<^verbatim>\<open>posixpath\<close>.\<close>

definition dirname :: "string \<Rightarrow> string" where
  "dirname p =
     (let head = rev (dropWhile (\<lambda>c. c \<noteq> CHR ''/'') (rev p))
      in if head \<noteq> [] \<and> head \<noteq> replicate (length head) (CHR ''/'')
         then rev (dropWhile (\<lambda>c. c = CHR ''/'') (rev head))
         else head)"

subsection \<open>Sorting by the key (weight, id)\<close>

text \<open>
  The sort key of \<^verbatim>\<open>sort_siblings\<close> and \<^verbatim>\<open>process_tags\<close> is the tuple
  \<^verbatim>\<open>(pages[a].weight, a)\<close>; \<^verbatim>\<open>pages[a]\<close> raises \<^verbatim>\<open>KeyError\<close> for an unknown id.
  Python compares two tuples at the first position where they are not equal: with equal
  weights (also both \<^verbatim>\<open>None\<close>) the ids decide, with different integer weights the
  weights decide, and \<^verbatim>\<open><\<close> between \<^verbatim>\<open>None\<close> and an integer raises \<^verbatim>\<open>TypeError\<close>.
\<close>

type_synonym sort_key = "int option \<times> string"

definition key :: "'c pages \<Rightarrow> string \<Rightarrow> py_error + sort_key" where
  "key pages a = (case map_of pages a of None \<Rightarrow> Inl KeyError | Some p \<Rightarrow> Inr (weight p, a))"

fun key_lt :: "sort_key \<Rightarrow> sort_key \<Rightarrow> py_error + bool" where
  "key_lt (w1, a1) (w2, a2) =
     (if w1 = w2 then Inr (a1 < a2)
      else (case (w1, w2) of
              (Some x, Some y) \<Rightarrow> Inr (x < y)
            | _ \<Rightarrow> Inl TypeError))"

text \<open>
  \<^verbatim>\<open>sorted(xs, key=key)\<close>: the keys are computed first, from left to right; then the
  elements are put in order by a stable sort that compares keys with \<^verbatim>\<open><\<close> only and
  lets an exception of the comparison escape. The sort is written as an insertion sort,
  which shares these properties with the sort of CPython; the two may compare different
  pairs, which shows only in which comparison raises first.
\<close>

fun keyed :: "'c pages \<Rightarrow> string list \<Rightarrow> py_error + (sort_key \<times> string) list" where
  "keyed pages [] = Inr []"
| "keyed pages (a # as) =
     and_then (key pages a) (\<lambda>k. and_then (keyed pages as) (\<lambda>ks. Inr ((k, a) # ks)))"

fun insort_lt :: "sort_key \<times> string \<Rightarrow> (sort_key \<times> string) list \<Rightarrow> py_error + (sort_key \<times> string) list" where
  "insort_lt x [] = Inr [x]"
| "insort_lt x (y # ys) =
     and_then (key_lt (fst y) (fst x))
       (\<lambda>less. if less then and_then (insort_lt x ys) (\<lambda>zs. Inr (y # zs))
               else Inr (x # y # ys))"

fun sort_lt :: "(sort_key \<times> string) list \<Rightarrow> py_error + (sort_key \<times> string) list" where
  "sort_lt [] = Inr []"
| "sort_lt (x # xs) = and_then (sort_lt xs) (insort_lt x)"

definition sorted_by_key :: "'c pages \<Rightarrow> string list \<Rightarrow> py_error + string list" where
  "sorted_by_key pages xs =
     and_then (keyed pages xs) (\<lambda>ks. and_then (sort_lt ks) (\<lambda>zs. Inr (map snd zs)))"

subsection \<open>Sibling resolver\<close>

text \<open>
  A Python set of page ids is a list without repetitions, in the order in which the set
  happens to be iterated; the theorems hold for every such order. The loop of
  \<^verbatim>\<open>sort_siblings\<close> over \<^verbatim>\<open>siblings - {me}\<close> appends each sibling to \<^verbatim>\<open>lighter\<close> or
  to \<^verbatim>\<open>heavier\<close> (\<open>ls\<close> and \<open>hs\<close> below, the names being those of fields of a page).
\<close>

fun partition_siblings :: "'c pages \<Rightarrow> string \<Rightarrow> string list \<Rightarrow> py_error + (string list \<times> string list)" where
  "partition_siblings pages me [] = Inr ([], [])"
| "partition_siblings pages me (s # ss) =
     and_then (key pages s) (\<lambda>ks.
     and_then (key pages me) (\<lambda>km.
     and_then (key_lt ks km) (\<lambda>less.
     and_then (partition_siblings pages me ss) (\<lambda>(ls, hs).
       if less then Inr (s # ls, hs) else Inr (ls, s # hs)))))"

definition sort_siblings ::
  "string list \<Rightarrow> string \<Rightarrow> 'c pages \<Rightarrow> py_error + (string list \<times> string option \<times> string option)" where
  "sort_siblings sibling_set me pages =
     (case map_of pages me of
        None \<Rightarrow> Inl KeyError
      | Some p \<Rightarrow>
          if weight p = None
          then and_then (sorted_by_key pages sibling_set) (\<lambda>ordered. Inr (ordered, None, None))
          else
            and_then (partition_siblings pages me (removeAll me sibling_set)) (\<lambda>(ls, hs).
            and_then (sorted_by_key pages ls) (\<lambda>ls.
            and_then (sorted_by_key pages hs) (\<lambda>hs.
              Inr (ls @ hs,
                   if ls \<noteq> [] then Some (last ls) else None,
                   if hs \<noteq> [] then Some (hd hs) else None)))))"

text \<open>
  \<^verbatim>\<open>fix_siblings(pages)\<close>. The first loop collects, per directory, the set of the pages
  that have a weight and a non-empty output path (\<^verbatim>\<open>pages[page_id]\<close> for the iterated
  key is the entry's own page). The second loop goes through the keys and replaces each
  page whose directory has such a set; it reads the dictionary that it is updating.
\<close>

definition set_add :: "string \<Rightarrow> string list \<Rightarrow> string list" where
  "set_add x s = (if x \<in> set s then s else s @ [x])"

definition add_sibling :: "string \<times> 'c Page \<Rightarrow> (string \<rightharpoonup> string list) \<Rightarrow> (string \<rightharpoonup> string list)" where
  "add_sibling entry sibling_dict =
     (case entry of (page_id, page) \<Rightarrow>
        if weight page = None \<or> \<not> truthy (path page) then sibling_dict
        else let d = dirname page_id
             in sibling_dict(d \<mapsto> set_add page_id (case sibling_dict d of None \<Rightarrow> [] | Some s \<Rightarrow> s)))"

definition build_sibling_dict :: "'c pages \<Rightarrow> (string \<rightharpoonup> string list)" where
  "build_sibling_dict pages = fold add_sibling pages Map.empty"

definition assign_siblings :: "(string \<rightharpoonup> string list) \<Rightarrow> string \<Rightarrow> 'c pages \<Rightarrow> py_error + 'c pages" where
  "assign_siblings sibling_dict page_id pages =
     (case sibling_dict (dirname page_id) of
        None \<Rightarrow> Inr pages
      | Some sibs \<Rightarrow>
          and_then (sort_siblings sibs page_id pages) (\<lambda>(ss, l, h).
            (case map_of pages page_id of
               None \<Rightarrow> Inl KeyError
             | Some page \<Rightarrow>
                 Inr (AList.update page_id (page\<lparr>siblings := ss, lighter := l, heavier := h\<rparr>) pages))))"

fun assign_all :: "(string \<rightharpoonup> string list) \<Rightarrow> string list \<Rightarrow> 'c pages \<Rightarrow> py_error + 'c pages" where
  "assign_all sibling_dict [] pages = Inr pages"
| "assign_all sibling_dict (page_id # page_ids) pages =
     and_then (assign_siblings sibling_dict page_id pages) (assign_all sibling_dict page_ids)"

definition fix_siblings :: "'c pages \<Rightarrow> py_error + 'c pages" where
  "fix_siblings pages = assign_all (build_sibling_dict pages) (map fst pages) pages"

subsection \<open>Notions used in the statements about siblings\<close>

text \<open>
  The pages of a directory that have a weight and a non-empty output path; the integer
  weight of a page id; two dictionaries with the same keys and the same weights; and a page
  with the sibling fields that \<open>sort_siblings\<close> computes for it.
\<close>

definition qualifying :: "'c pages \<Rightarrow> string \<Rightarrow> string set" where
  "qualifying ps d =
     {k. \<exists>p. (k, p) \<in> set ps \<and> weight p \<noteq> None \<and> truthy (path p) \<and> dirname k = d}"

definition int_weight :: "'c pages \<Rightarrow> string \<Rightarrow> int" where
  "int_weight ps k =
     (case map_of ps k of
        Some p \<Rightarrow> (case weight p of Some x \<Rightarrow> x | None \<Rightarrow> 0)
      | None \<Rightarrow> 0)"

definition same_weights :: "'c pages \<Rightarrow> 'c pages \<Rightarrow> bool" where
  "same_weights ps qs =
     (map fst ps = map fst qs \<and>
      (\<forall>k. map_option weight (map_of ps k) = map_option weight (map_of qs k)))"

definition resolved_page :: "(string \<rightharpoonup> string list) \<Rightarrow> 'c pages \<Rightarrow> string \<Rightarrow> 'c Page \<Rightarrow> 'c Page" where
  "resolved_page sibling_dict ps k p =
     (case sibling_dict (dirname k) of
        None \<Rightarrow> p
      | Some sibs \<Rightarrow>
          (case sort_siblings sibs k ps of
             Inr (ss, l, h) \<Rightarrow> p\<lparr>siblings := ss, lighter := l, heavier := h\<rparr>
           | Inl e \<Rightarrow> p))"

definition good_dict :: "(string \<rightharpoonup> string list) \<Rightarrow> 'c pages \<Rightarrow> bool" where
  "good_dict sibling_dict ps =
     (\<forall>d sibs. sibling_dict d = Some sibs \<longrightarrow>
        (\<forall>s\<in>set sibs. \<exists>q. map_of ps s = Some q \<and> weight q \<noteq> None))"

subsection \<open>Tag index\<close>

text \<open>
  \<^verbatim>\<open>process_tags(pages)\<close>: \<^verbatim>\<open>tags.setdefault(tag, []).append(v.id)\<close> for every tag of
  every page, in the order of the dictionary; then every list is replaced by its sorted
  version. The dictionary of tags is an association list in insertion order.
\<close>

definition append_tag :: "string \<Rightarrow> string \<Rightarrow> (string \<times> string list) list \<Rightarrow> (string \<times> string list) list" where
  "append_tag page_id tag tag_dict =
     (case map_of tag_dict tag of
        None \<Rightarrow> tag_dict @ [(tag, [page_id])]
      | Some ids \<Rightarrow> AList.update tag (ids @ [page_id]) tag_dict)"

definition collect_tags :: "'c pages \<Rightarrow> (string \<times> string list) list" where
  "collect_tags pages =
     fold (\<lambda>(k, v) tag_dict. fold (append_tag (id' v)) (tags v) tag_dict) pages []"

fun sort_tags :: "'c pages \<Rightarrow> (string \<times> string list) list \<Rightarrow> py_error + (string \<times> string list) list" where
  "sort_tags pages [] = Inr []"
| "sort_tags pages ((k, ids) # rest) =
     and_then (sorted_by_key pages ids) (\<lambda>ordered.
     and_then (sort_tags pages rest) (\<lambda>rest'. Inr ((k, ordered) # rest')))"

definition process_tags :: "'c pages \<Rightarrow> py_error + (string \<times> string list) list" where
  "process_tags pages = sort_tags pages (collect_tags pages)"

subsection \<open>Build engine\<close>

text \<open>
  The named tuples \<^verbatim>\<open>Task\<close>, \<^verbatim>\<open>ImageInfo\<close> and \<^verbatim>\<open>Library\<close> (its fields carry the
  prefix \<open>lib\<close>, the plain names being in use).
\<close>

record Task =
  page_id :: string
  latest_timestamp :: int
  template :: string
  output_path :: string

record ImageInfo =
  width :: int
  height :: int

record 'c Library =
  lib_pages :: "'c pages"
  lib_tasks :: "Task list"
  lib_versioned :: "string \<rightharpoonup> int"
  lib_image_info :: "string \<rightharpoonup> ImageInfo"
  lib_tags :: "(string \<times> string list) list"

text \<open>
  The output directory and what \<^verbatim>\<open>output_site\<close> does to it and prints. A file has its
  text as written and its modification time in nanoseconds; files are keyed by their path
  below the output directory, whose subdirectories are taken to exist (the copy step of
  \<^verbatim>\<open>build\<close> creates them). The clock is logical: a write stamps the file with the
  current time and time moves on. \<open>written\<close> records the paths written, \<open>messages\<close> the
  status messages.
\<close>

record out_file =
  file_text :: string
  mtime_ns :: int

record world =
  files :: "string \<rightharpoonup> out_file"
  clock :: int
  written :: "string list"
  messages :: "string list"

text \<open>
  \<^verbatim>\<open>Path.read_text()\<close> opens the file in text mode with universal newlines: \<^verbatim>\<open>\r\n\<close>
  and a lone \<^verbatim>\<open>\r\<close> are read as \<^verbatim>\<open>\n\<close>. Writing through \<^verbatim>\<open>open(path, "w")\<close>
  stores the text as it is (on a system whose line separator is \<^verbatim>\<open>\n\<close>).
\<close>

fun universal_newlines :: "string \<Rightarrow> string" where
  "universal_newlines [] = []"
| "universal_newlines [c] = (if c = CHR 0x0D then [CHR 0x0A] else [c])"
| "universal_newlines (c # d # cs) =
     (if c = CHR 0x0D \<and> d = CHR 0x0A then CHR 0x0A # universal_newlines cs
      else if c = CHR 0x0D then CHR 0x0A # universal_newlines (d # cs)
      else c # universal_newlines (d # cs))"

definition read_text :: "world \<Rightarrow> string \<Rightarrow> string option" where
  "read_text w p = map_option (\<lambda>f. universal_newlines (file_text f)) (files w p)"

definition write_text :: "world \<Rightarrow> string \<Rightarrow> string \<Rightarrow> world" where
  "write_text w p s =
     w\<lparr>files := (files w)(p \<mapsto> \<lparr>file_text = s, mtime_ns = clock w\<rparr>),
       clock := clock w + 1,
       written := written w @ [p]\<rparr>"

definition status_message :: "string \<Rightarrow> world \<Rightarrow> world" where
  "status_message msg w = w\<lparr>messages := messages w @ [msg]\<rparr>"

text \<open>
  The body of the loop of \<^verbatim>\<open>output_site\<close> for one task: the test of quick mode, then
  (\<open>render_and_write\<close>) the rest of the body. The template engine is a
  parameter: \<open>render page task\<close> stands for \<^verbatim>\<open>get_template(task.template)\<close> followed by
  \<^verbatim>\<open>render(page=page, pages=..., tags=..., root=...)\<close>, the library, the templates and
  the root being fixed during a build; it may raise. The result is the exception that
  ended the step, if any, and the world it leaves. \<^verbatim>\<open>old_output\<close> is \<^verbatim>\<open>False\<close> for a
  missing file, which differs from every string.
\<close>

definition render_and_write ::
  "('c Page \<Rightarrow> Task \<Rightarrow> py_error + string) \<Rightarrow> 'c pages \<Rightarrow> Task \<Rightarrow> world \<Rightarrow> py_error option \<times> world" where
  "render_and_write render ps task w =
     (let w1 = status_message (''Writing '' @ page_id task) w in
      case map_of ps (page_id task) of
        None \<Rightarrow> (Some KeyError, w1)
      | Some page \<Rightarrow>
          (case render page task of
             Inl e \<Rightarrow> (Some e, w1)
           | Inr output \<Rightarrow>
               if Some output \<noteq> read_text w1 (output_path task)
               then (None, write_text w1 (output_path task) output)
               else (None, w1)))"

definition output_task ::
  "('c Page \<Rightarrow> Task \<Rightarrow> py_error + string) \<Rightarrow> 'c pages \<Rightarrow> bool \<Rightarrow> Task \<Rightarrow> world \<Rightarrow> py_error option \<times> world" where
  "output_task render ps quick task w =
     (if quick \<and> files w (output_path task) \<noteq> None \<and>
         (case files w (output_path task) of
            Some f \<Rightarrow> mtime_ns f > latest_timestamp task
          | None \<Rightarrow> False)
      then (None, w)
      else render_and_write render ps task w)"

fun output_tasks ::
  "('c Page \<Rightarrow> Task \<Rightarrow> py_error + string) \<Rightarrow> 'c pages \<Rightarrow> bool \<Rightarrow> Task list \<Rightarrow> world \<Rightarrow> py_error option \<times> world" where
  "output_tasks render ps quick [] w = (None, w)"
| "output_tasks render ps quick (task # tasks) w =
     (case output_task render ps quick task w of
        (None, w') \<Rightarrow> output_tasks render ps quick tasks w'
      | (Some e, w') \<Rightarrow> (Some e, w'))"

definition output_site ::
  "('c Page \<Rightarrow> Task \<Rightarrow> py_error + string) \<Rightarrow> 'c Library \<Rightarrow> bool \<Rightarrow> world \<Rightarrow> py_error option \<times> world" where
  "output_site render library quick w =
     (case output_tasks render (lib_pages library) quick (lib_tasks library) w of
        (None, w') \<Rightarrow> (None, status_message ''Finished'' w')
      | (Some e, w') \<Rightarrow> (Some e, w'))"

text \<open>
  For the statements: the test that lets quick mode skip a task, and a task whose output
  file is up to date, that is, either skipped by quick mode or holding the text that
  rendering the task gives.
\<close>

definition newer_output :: "world \<Rightarrow> Task \<Rightarrow> bool" where
  "newer_output w task =
     (case files w (output_path task) of
        Some f \<Rightarrow> latest_timestamp task < mtime_ns f
      | None \<Rightarrow> False)"

definition settled ::
  "('c Page \<Rightarrow> Task \<Rightarrow> py_error + string) \<Rightarrow> 'c pages \<Rightarrow> bool \<Rightarrow> world \<Rightarrow> Task \<Rightarrow> bool" where
  "settled render ps quick w task =
     ((quick \<and> newer_output w task) \<or>
      (case map_of ps (page_id task) of
         None \<Rightarrow> False
       | Some page \<Rightarrow>
           (case render page task of
              Inl e \<Rightarrow> False
            | Inr output \<Rightarrow> read_text w (output_path task) = Some output)))"

text \<open>
  Two page descriptors \<^verbatim>\<open>a.page\<close> and \<^verbatim>\<open>a.b.page\<close>, both with a template: their
  output paths are \<^verbatim>\<open>Path("a").with_suffix(".html")\<close> and
  \<^verbatim>\<open>Path("a.b").with_suffix(".html")\<close>, both \<^verbatim>\<open>a.html\<close>. The template renders the
  page id. And an empty output directory.
\<close>

definition clash_pages :: "unit pages" where
  "clash_pages =
     [(''a'', new_page ''a'' (Some ''a.html'') ''.'' (Some ''a.html'') [] [] [] [] (Some 0)),
      (''a.b'', new_page ''a.b'' (Some ''a.html'') ''.'' (Some ''a.html'') [] [] [] [] (Some 0))]"

definition clash_tasks :: "Task list" where
  "clash_tasks =
     [\<lparr>page_id = ''a'', latest_timestamp = 1, template = ''t'', output_path = ''a.html''\<rparr>,
      \<lparr>page_id = ''a.b'', latest_timestamp = 2, template = ''t'', output_path = ''a.html''\<rparr>]"

definition render_id :: "unit Page \<Rightarrow> Task \<Rightarrow> py_error + string" where
  "render_id page task = Inr (id' page)"

definition render_crlf :: "unit Page \<Rightarrow> Task \<Rightarrow> py_error + string" where
  "render_crlf page task = Inr (id' page @ [CHR 0x0D, CHR 0x0A])"


definition empty_world :: world where
  "empty_world = \<lparr>files = Map.empty, clock = 10, written = [], messages = []\<rparr>"

subsection \<open>Content decoder\<close>
















subsection \<open>A small site\<close>

text \<open>
  The pages that \<^verbatim>\<open>process_page_file\<close> builds for a content tree with the descriptors
  \<^verbatim>\<open>about.page\<close>, \<^verbatim>\<open>blog/index.page\<close> and \<^verbatim>\<open>blog/notes.page\<close> (both without a
  template), and \<^verbatim>\<open>blog/b.page\<close>, \<^verbatim>\<open>blog/a.page\<close> (weight 10) and \<^verbatim>\<open>blog/c.page\<close>
  (weight 5); and the pages of a tree with \<^verbatim>\<open>a.page\<close> and \<^verbatim>\<open>index.page\<close>, both
  carrying the tag \<open>t\<close> and no template.
\<close>

definition example_pages :: "unit pages" where
  "example_pages =
     [(''about'', new_page ''about'' (Some ''about.html'') ''.'' (Some ''about.html'') [''blog''] [] [] [] (Some 0)),
      (''blog/index'', new_page ''blog/index'' (Some []) ''blog'' (Some []) [] [] [] [] None),
      (''blog/b'', new_page ''blog/b'' (Some ''blog/b.html'') ''blog'' (Some ''b.html'') [] [] [] [] (Some 10)),
      (''blog/notes'', new_page ''blog/notes'' (Some []) ''blog'' (Some []) [] [] [] [] (Some 0)),
      (''blog/a'', new_page ''blog/a'' (Some ''blog/a.html'') ''blog'' (Some ''a.html'') [] [] [] [] (Some 10)),
      (''blog/c'', new_page ''blog/c'' (Some ''blog/c.html'') ''blog'' (Some ''c.html'') [] [] [] [] (Some 5))]"

definition tagged_pages :: "unit pages" where
  "tagged_pages =
     [(''a'', new_page ''a'' (Some []) ''.'' (Some []) [] [] [] [''t''] (Some 0)),
      (''index'', new_page ''index'' (Some []) ''.'' (Some []) [] [] [] [''t''] None)]"

text \<open>
  Tasks with output paths of their own, for the site above, and an output directory that
  already holds \<^verbatim>\<open>about.html\<close>.
\<close>

definition site_tasks :: "Task list" where
  "site_tasks =
     [\<lparr>page_id = ''about'', latest_timestamp = 3, template = ''t'', output_path = ''about.html''\<rparr>,
      \<lparr>page_id = ''blog/a'', latest_timestamp = 4, template = ''t'', output_path = ''blog/a.html''\<rparr>]"

definition built_world :: world where
  "built_world =
     \<lparr>files = [''about.html'' \<mapsto> \<lparr>file_text = ''old'', mtime_ns = 5\<rparr>],
       clock = 10, written = [], messages = []\<rparr>"

section \<open>Properties\<close>

subsection \<open>Versioned assets\<close>

lemma split_on_not_Nil: "split_on c xs \<noteq> []"
  by (induction xs) (auto split: list.splits)

lemma split_on_notin: "c \<notin> set xs \<Longrightarrow> split_on c xs = [xs]"
  by (induction xs) auto

lemma split_on_append: "split_on c (a @ c # b) = split_on c a @ split_on c b"
  by (induction a) (auto split: list.splits simp: split_on_not_Nil)

lemma takeWhile_neq_rev:
  "c \<notin> set e \<Longrightarrow> takeWhile (\<lambda>x. x \<noteq> c) (rev e @ c # ys) = rev e"
  by (induction e rule: rev_induct) auto

lemma takeWhile_neq_rev_all:
  "c \<notin> set e \<Longrightarrow> takeWhile (\<lambda>x. x \<noteq> c) (rev e) = rev e"
  by (induction e rule: rev_induct) auto

lemma dropWhile_neq_rev:
  "c \<notin> set e \<Longrightarrow> dropWhile (\<lambda>x. x \<noteq> c) (rev e @ c # ys) = c # ys"
  by (induction e rule: rev_induct) auto

lemma dropWhile_neq_rev_all:
  "c \<notin> set e \<Longrightarrow> dropWhile (\<lambda>x. x \<noteq> c) (rev e) = []"
  by (induction e rule: rev_induct) auto

lemma path_name_append:
  "CHR ''/'' \<notin> set name \<Longrightarrow> parent = [] \<or> last parent = CHR ''/'' \<Longrightarrow> path_name (parent @ name) = name"
  unfolding path_name_def
  by (cases parent rule: rev_cases) (auto simp: takeWhile_neq_rev takeWhile_neq_rev_all)

lemma path_parent_append:
  "CHR ''/'' \<notin> set name \<Longrightarrow> parent = [] \<or> last parent = CHR ''/'' \<Longrightarrow> path_parent (parent @ name) = parent"
  unfolding path_parent_def
  by (cases parent rule: rev_cases) (auto simp: dropWhile_neq_rev dropWhile_neq_rev_all)

lemma rfind_append:
  "c \<notin> set e \<Longrightarrow> rfind c (a @ c # e) = int (length a)"
  by (simp add: rfind_def takeWhile_neq_rev)

lemma name_suffix_append:
  "CHR ''.'' \<notin> set e \<Longrightarrow> e \<noteq> [] \<Longrightarrow> a \<noteq> [] \<Longrightarrow> name_suffix (a @ CHR ''.'' # e) = CHR ''.'' # e"
  by (simp add: name_suffix_def rfind_append Let_def)

lemma digit_groups_digits:
  "ds \<noteq> [] \<Longrightarrow> list_all is_digit ds \<Longrightarrow> digit_groups ds = Some ds"
proof (induction ds rule: digit_groups.induct)
  case (3 c d cs)
  then have "d \<noteq> CHR ''_''" by (auto simp: is_digit_def)
  with 3 show ?case by simp
qed simp_all

lemma to_ascii_ascii: "list_all (\<lambda>c. (of_char c :: nat) < 127) s \<Longrightarrow> to_ascii s = s"
  by (induction s) simp_all

lemma digit_ascii: "is_digit c \<Longrightarrow> (of_char c :: nat) < 127"
  by (simp add: is_digit_def less_eq_char_def)

lemma digit_not_space: "is_digit c \<Longrightarrow> \<not> c_isspace c"
  by (auto simp: is_digit_def c_isspace_def)

lemma dropWhile_hd: "xs \<noteq> [] \<Longrightarrow> \<not> P (hd xs) \<Longrightarrow> dropWhile P xs = xs"
  by (cases xs) auto

lemma no_space_ends:
  "s \<noteq> [] \<Longrightarrow> \<not> c_isspace (hd s) \<Longrightarrow> \<not> c_isspace (last s) \<Longrightarrow>
     rev (dropWhile c_isspace (rev (dropWhile c_isspace s))) = s"
  by (simp add: dropWhile_hd hd_rev)

lemma py_int_digits:
  assumes "ds \<noteq> []" "list_all is_digit ds"
  shows "py_int ds = Inr (decimal ds)"
proof -
  have h: "is_digit (hd ds)" and l: "is_digit (last ds)"
    using assms by (auto simp: list_all_iff)
  have a: "to_ascii ds = ds"
    using assms(2) by (intro to_ascii_ascii) (auto simp: list_all_iff digit_ascii)
  have s: "rev (dropWhile c_isspace (rev (dropWhile c_isspace ds))) = ds"
    using assms(1) h l by (simp add: no_space_ends digit_not_space)
  have "hd ds \<noteq> CHR ''-''" "hd ds \<noteq> CHR ''+''"
    using h by (auto simp: is_digit_def)
  then show ?thesis
    unfolding py_int_def a s Let_def
    using assms by (cases ds) (simp_all add: digit_groups_digits)
qed

lemma decimal_nonneg: "list_all is_digit ds \<Longrightarrow> 0 \<le> decimal ds"
proof -
  have "list_all is_digit ds \<Longrightarrow> 0 \<le> a \<Longrightarrow> 0 \<le> foldl (\<lambda>a c. 10 * a + digit_value c) a ds" for a
  proof (induction ds arbitrary: a)
    case (Cons c ds)
    then have "0 \<le> digit_value c"
      by (auto simp: is_digit_def digit_value_def less_eq_char_def)
    with Cons show ?case by simp
  qed simp
  then show "list_all is_digit ds \<Longrightarrow> 0 \<le> decimal ds" by (simp add: decimal_def)
qed

lemma py_int_negative:
  assumes "ds \<noteq> []" "list_all is_digit ds"
  shows "py_int (CHR ''-'' # ds) = Inr (- decimal ds)"
proof -
  have "is_digit (last ds)"
    using assms by (auto simp: list_all_iff)
  then have "\<not> c_isspace (last (CHR ''-'' # ds))"
    using assms(1) by (simp add: digit_not_space)
  moreover have "\<not> c_isspace (hd (CHR ''-'' # ds))"
    by (simp add: c_isspace_def)
  ultimately have s: "rev (dropWhile c_isspace (rev (dropWhile c_isspace (CHR ''-'' # ds)))) = CHR ''-'' # ds"
    by (intro no_space_ends) simp_all
  have a: "to_ascii (CHR ''-'' # ds) = CHR ''-'' # ds"
    using assms(2) by (intro to_ascii_ascii) (auto simp: list_all_iff digit_ascii)
  show ?thesis
    unfolding py_int_def a s Let_def
    using assms by (simp add: digit_groups_digits)
qed

text \<open>
  Beyond ASCII: the Arabic-Indic digit three (U+0663) is a version, a no-break space
  (U+00A0) around the digits is dropped, and the separator \<^verbatim>\<open>0x1C\<close>, white space for
  \<^verbatim>\<open>str.strip\<close> but not for \<^verbatim>\<open>int\<close>, makes the name unversioned.
\<close>

lemma version_and_key_beyond_ascii:
  "version_and_key (''a.'' @ [CHR 0xD9, CHR 0xA3] @ ''.ext'') = Inr (3, ''a.ext'')"
  "version_and_key (''a.'' @ [CHR 0xC2, CHR 0xA0] @ ''12'' @ [CHR 0xC2, CHR 0xA0] @ ''.ext'') = Inr (12, ''a.ext'')"
  "version_and_key (''a.'' @ [CHR 0x1C] @ ''1.ext'') = Inl ValueError"
  "strip ([CHR 0x1C] @ ''x'' @ [CHR 0xC2, CHR 0xA0, CHR 0xE2, CHR 0x80, CHR 0xA8]) = ''x''"
  by code_simp+

lemma version_and_key_versioned:
  assumes parent: "parent = [] \<or> last parent = CHR ''/''"
    and stem: "CHR ''/'' \<notin> set stem" "\<exists>c\<in>set stem. c \<noteq> CHR ''.''"
    and num: "CHR ''.'' \<notin> set num" "CHR ''/'' \<notin> set num" "py_int num = Inr n"
    and ext: "ext \<noteq> []" "CHR ''.'' \<notin> set ext" "CHR ''/'' \<notin> set ext"
  shows "version_and_key (parent @ stem @ ''.'' @ num @ ''.'' @ ext) = Inr (n, parent @ stem @ ''.'' @ ext)"
proof -
  define name where "name = stem @ CHR ''.'' # num @ CHR ''.'' # ext"
  define name1 where "name1 = stem @ CHR ''.'' # num"
  define vkey where "vkey = parent @ stem @ CHR ''.'' # ext"
  have num_ne: "num \<noteq> []"
    using num(3) by (auto simp: py_int_def)
  have stem_ne: "stem \<noteq> []"
    using stem(2) by auto
  have name_ne: "name \<noteq> []" and name1_ne: "name1 \<noteq> []"
    by (simp_all add: name_def name1_def)
  have nm: "path_name (parent @ name) = name"
    using stem(1) num(2) ext(3) parent by (intro path_name_append) (auto simp: name_def)
  have par: "path_parent (parent @ name) = parent"
    using stem(1) num(2) ext(3) parent by (intro path_parent_append) (auto simp: name_def)
  have not_dot_end: "\<not> endswith name ''.''"
    using ext(1,2) by (cases ext rule: rev_cases) (auto simp: endswith_def name_def)
  obtain c0 where c0: "c0 \<in> set stem" "c0 \<noteq> CHR ''.''"
    using stem(2) by auto
  define s1 where "s1 = dropWhile (\<lambda>c. c = CHR ''.'') stem"
  have lstrip: "dropWhile (\<lambda>c. c = CHR ''.'') name = s1 @ CHR ''.'' # num @ CHR ''.'' # ext"
    using dropWhile_append1 [of c0 stem "\<lambda>c. c = CHR ''.''" "CHR ''.'' # num @ CHR ''.'' # ext"] c0
    by (simp add: name_def s1_def)
  have split: "split_on (CHR ''.'') (s1 @ CHR ''.'' # num @ CHR ''.'' # ext)
                 = split_on (CHR ''.'') s1 @ [num, ext]"
    using num(1) ext(2) by (simp add: split_on_append split_on_notin)
  obtain q qs where q: "split_on (CHR ''.'') s1 = q # qs"
    using split_on_not_Nil [of "CHR ''.''" s1] by (cases "split_on (CHR ''.'') s1") auto
  have sfx: "path_suffixes (parent @ name)
               = map (\<lambda>suffix. CHR ''.'' # suffix) qs @ [CHR ''.'' # num, CHR ''.'' # ext]"
    unfolding path_suffixes_def nm Let_def using not_dot_end
    by (simp only: lstrip split q if_False) simp
  have ver: "drop 1 (path_suffixes (parent @ name) ! (length (path_suffixes (parent @ name)) - 2)) = num"
    unfolding sfx by (simp add: nth_append)
  have len: "\<not> length (path_suffixes (parent @ name)) < 2"
    unfolding sfx by simp
  have suf: "name_suffix name = CHR ''.'' # ext"
    using name_suffix_append [of ext "stem @ CHR ''.'' # num"] ext stem_ne by (simp add: name_def)
  have tk: "take (length name - length (CHR ''.'' # ext)) name = name1"
    by (simp add: name_def name1_def)
  have w1: "with_suffix (parent @ name) [] = Inr (parent @ name1)"
    unfolding with_suffix_def nm par suf Let_def tk using name_ne by simp
  have nm2: "path_name (parent @ name1) = name1"
    using stem(1) num(2) parent by (intro path_name_append) (auto simp: name1_def)
  have par2: "path_parent (parent @ name1) = parent"
    using stem(1) num(2) parent by (intro path_parent_append) (auto simp: name1_def)
  have suf2: "name_suffix name1 = CHR ''.'' # num"
    using name_suffix_append [of num stem] num(1) num_ne stem_ne by (simp add: name1_def)
  have tk2: "take (length name1 - length (CHR ''.'' # num)) name1 = stem"
    by (simp add: name1_def)
  have w2: "with_suffix (parent @ name1) (CHR ''.'' # ext) = Inr vkey"
    unfolding with_suffix_def nm2 par2 suf2 Let_def tk2 using name1_ne ext
    by (simp add: startswith_def vkey_def)
  have "version_and_key (parent @ name) = Inr (n, vkey)"
    unfolding version_and_key_def Let_def
    using len by (simp only: ver num(3) w1 path_suffix_def nm suf w2 if_False sum.case)
  then show ?thesis
    by (simp add: name_def vkey_def)
qed


lemma map_filter_append: "List.map_filter f (xs @ ys) = List.map_filter f xs @ List.map_filter f ys"
  by (simp add: List.map_filter_def)

lemma highest_positive_snoc:
  "highest_positive (vs @ [v]) = (if v > (case highest_positive vs of None \<Rightarrow> 0 | Some x \<Rightarrow> x) then Some v else highest_positive vs)"
proof (cases "vs = []")
  case True
  then show ?thesis by (simp add: highest_positive_def)
next
  case False
  define m where "m = Max (set vs)"
  have "Max (set (vs @ [v])) = max v m"
    using False by (simp add: m_def)
  then have "highest_positive (vs @ [v]) = (if 0 < max v m then Some (max v m) else None)"
    by (simp add: highest_positive_def)
  moreover have "highest_positive vs = (if 0 < m then Some m else None)"
    using False by (simp add: highest_positive_def m_def)
  ultimately show ?thesis
    by (auto simp: max_def)
qed

lemma walk_versioned_snoc:
  "walk_versioned (ps @ [p]) =
     (if path_suffix p = ''.page'' then walk_versioned ps
      else process_versioned p (walk_versioned ps))"
  by (simp add: walk_versioned_def)

lemma walk_versioned_highest: "walk_versioned ps vkey = highest_positive (versions_seen vkey ps)"
proof (induction ps rule: rev_induct)
  case Nil
  show ?case by (simp add: walk_versioned_def versions_seen_def highest_positive_def)
next
  case (snoc p ps)
  show ?case
  proof (cases "path_suffix p = ''.page''")
    case True
    then show ?thesis
      using snoc by (simp add: walk_versioned_snoc versions_seen_def map_filter_append)
  next
    case False
    show ?thesis
    proof (cases "version_and_key p")
      case (Inl e)
      then show ?thesis
        using snoc False
        by (simp add: walk_versioned_snoc versions_seen_def map_filter_append
              process_versioned_def)
    next
      case (Inr vk)
      obtain v k where vk: "vk = (v, k)" by (cases vk)
      show ?thesis
      proof (cases "k = vkey")
        case True
        have "versions_seen vkey (ps @ [p]) = versions_seen vkey ps @ [v]"
          using False Inr vk True
          by (simp add: versions_seen_def map_filter_append)
        then show ?thesis
          using snoc False Inr vk True
          by (simp add: walk_versioned_snoc process_versioned_def highest_positive_snoc)
      next
        case neq: False
        have "versions_seen vkey (ps @ [p]) = versions_seen vkey ps"
          using False Inr vk neq
          by (simp add: versions_seen_def map_filter_append)
        then show ?thesis
          using snoc False Inr vk neq
          by (simp add: walk_versioned_snoc process_versioned_def)
      qed
    qed
  qed
qed

lemma walk_versioned_positive: "walk_versioned ps k = Some v \<Longrightarrow> 0 < v"
  by (auto simp: walk_versioned_highest highest_positive_def split: if_splits)


text \<open>
  Claim C7, as the code has it. A file named \<open>stem.N.ext\<close>, with \<open>N\<close> a decimal numeral
  right before the last extension, is read as version \<open>N\<close> of the vkey \<open>stem.ext\<close>; and
  after any walk the version map binds a vkey to the highest version the walked files carry
  for it when that version is at least 1, and leaves the vkey unbound otherwise.
\<close>

theorem walk_versioned_records_highest:
  "((parent = [] \<or> last parent = CHR ''/'') \<and> CHR ''/'' \<notin> set stem \<and> (\<exists>c\<in>set stem. c \<noteq> CHR ''.'') \<and>
    num \<noteq> [] \<and> list_all is_digit num \<and>
    ext \<noteq> [] \<and> CHR ''.'' \<notin> set ext \<and> CHR ''/'' \<notin> set ext
    \<longrightarrow> version_and_key (parent @ stem @ ''.'' @ num @ ''.'' @ ext)
          = Inr (decimal num, parent @ stem @ ''.'' @ ext)) \<and>
   walk_versioned relpaths vkey =
     (let vs = versions_seen vkey relpaths
      in if vs \<noteq> [] \<and> 0 < Max (set vs) then Some (Max (set vs)) else None)"
proof -
  have "version_and_key (parent @ stem @ ''.'' @ num @ ''.'' @ ext)
          = Inr (decimal num, parent @ stem @ ''.'' @ ext)"
    if "parent = [] \<or> last parent = CHR ''/''" "CHR ''/'' \<notin> set stem" "\<exists>c\<in>set stem. c \<noteq> CHR ''.''"
      "num \<noteq> []" "list_all is_digit num" "ext \<noteq> []" "CHR ''.'' \<notin> set ext" "CHR ''/'' \<notin> set ext"
  proof -
    have "CHR ''.'' \<notin> set num" "CHR ''/'' \<notin> set num"
      using that(5) by (auto simp: list_all_iff is_digit_def)
    then show ?thesis
      using that by (intro version_and_key_versioned py_int_digits)
  qed
  moreover have "walk_versioned relpaths vkey =
     (let vs = versions_seen vkey relpaths
      in if vs \<noteq> [] \<and> 0 < Max (set vs) then Some (Max (set vs)) else None)"
    by (simp add: walk_versioned_highest highest_positive_def Let_def)
  ultimately show ?thesis by blast
qed

theorem walk_versioned_records_highest_witness:
  "version_and_key ''css/a.3.ext'' = Inr (3, ''css/a.ext'') \<and>
   walk_versioned [''a.1.ext'', ''a.2.ext'', ''a.3.ext''] ''a.ext'' = Some 3"
proof -
  have "version_and_key (''css/'' @ ''a'' @ ''.'' @ ''3'' @ ''.'' @ ''ext'')
          = Inr (decimal ''3'', ''css/'' @ ''a'' @ ''.'' @ ''ext'')"
    using walk_versioned_records_highest [of "''css/''" "''a''" "''3''" "''ext''"]
    by (simp add: is_digit_def less_eq_char_def)
  then have a: "version_and_key ''css/a.3.ext'' = Inr (3, ''css/a.ext'')"
    by (simp add: decimal_def digit_value_def)
  have vs: "versions_seen ''a.ext'' [''a.1.ext'', ''a.2.ext'', ''a.3.ext''] = [1, 2, 3]"
    by code_simp
  have b: "walk_versioned [''a.1.ext'', ''a.2.ext'', ''a.3.ext''] ''a.ext'' = Some 3"
    using walk_versioned_records_highest [of "[]" "[]" "[]" "[]" "[''a.1.ext'', ''a.2.ext'', ''a.3.ext'']" "''a.ext''"]
    by (simp add: vs)
  from a b show ?thesis by simp
qed

text \<open>
  The claim as worded fails for the version 0: the file \<open>a.0.ext\<close> is read as version 0 of
  \<open>a.ext\<close>, and the walk binds nothing to that vkey.
\<close>

theorem walk_versioned_zero_counterexample:
  "version_and_key ''a.0.ext'' = Inr (0, ''a.ext'') \<and> walk_versioned [''a.0.ext''] ''a.ext'' = None"
  by code_simp

text \<open>
  Claim C10. Every version map that a walk produces holds only versions greater than 0;
  on such a map (on any map without negative entries) a relpath whose version is zero or
  negative leaves the map unchanged, a name \<open>stem.N.ext\<close> having the version that \<open>int\<close>
  reads from \<open>N\<close>; and whenever \<open>process_versioned\<close> changes the map of a walk, it records a
  version that is greater than 0 and greater than the version recorded before.
\<close>

theorem process_versioned_nonpositive_unchanged:
  "(\<forall>k v. walk_versioned relpaths k = Some v \<longrightarrow> 0 < v) \<and>
   ((\<forall>k v. max_version k = Some v \<longrightarrow> 0 \<le> v) \<and> version_and_key relpath = Inr (n, vkey) \<and> n \<le> 0
      \<longrightarrow> process_versioned relpath max_version = max_version) \<and>
   ((parent = [] \<or> last parent = CHR ''/'') \<and> CHR ''/'' \<notin> set stem \<and> (\<exists>c\<in>set stem. c \<noteq> CHR ''.'') \<and>
    CHR ''.'' \<notin> set num \<and> CHR ''/'' \<notin> set num \<and> py_int num = Inr m \<and>
    ext \<noteq> [] \<and> CHR ''.'' \<notin> set ext \<and> CHR ''/'' \<notin> set ext
    \<longrightarrow> version_and_key (parent @ stem @ ''.'' @ num @ ''.'' @ ext) = Inr (m, parent @ stem @ ''.'' @ ext)) \<and>
   (process_versioned relpath (walk_versioned relpaths) = walk_versioned relpaths \<or>
    (\<exists>v k. version_and_key relpath = Inr (v, k) \<and> 0 < v \<and>
           (case walk_versioned relpaths k of None \<Rightarrow> True | Some old \<Rightarrow> old < v) \<and>
           process_versioned relpath (walk_versioned relpaths) = (walk_versioned relpaths)(k \<mapsto> v)))"
proof -
  have inv: "\<forall>k v. walk_versioned relpaths k = Some v \<longrightarrow> 0 < v"
    using walk_versioned_positive by blast
  have unchanged: "process_versioned relpath max_version = max_version"
    if "\<forall>k v. max_version k = Some v \<longrightarrow> 0 \<le> v" "version_and_key relpath = Inr (n, vkey)" "n \<le> 0"
  proof (cases "max_version vkey")
    case None
    then show ?thesis using that by (simp add: process_versioned_def)
  next
    case (Some old)
    then have "0 \<le> old" using that(1) by blast
    then show ?thesis using that(2,3) Some by (simp add: process_versioned_def)
  qed
  have shape: "version_and_key (parent @ stem @ ''.'' @ num @ ''.'' @ ext) = Inr (m, parent @ stem @ ''.'' @ ext)"
    if "parent = [] \<or> last parent = CHR ''/''" "CHR ''/'' \<notin> set stem" "\<exists>c\<in>set stem. c \<noteq> CHR ''.''"
       "CHR ''.'' \<notin> set num" "CHR ''/'' \<notin> set num" "py_int num = Inr m"
       "ext \<noteq> []" "CHR ''.'' \<notin> set ext" "CHR ''/'' \<notin> set ext"
    using that by (rule version_and_key_versioned)
  have change: "process_versioned relpath (walk_versioned relpaths) = walk_versioned relpaths \<or>
    (\<exists>v k. version_and_key relpath = Inr (v, k) \<and> 0 < v \<and>
           (case walk_versioned relpaths k of None \<Rightarrow> True | Some old \<Rightarrow> old < v) \<and>
           process_versioned relpath (walk_versioned relpaths) = (walk_versioned relpaths)(k \<mapsto> v))"
  proof (cases "version_and_key relpath")
    case (Inl e)
    then show ?thesis by (simp add: process_versioned_def)
  next
    case (Inr vk)
    obtain v k where vk: "vk = (v, k)" by (cases vk)
    show ?thesis
    proof (cases "walk_versioned relpaths k")
      case None
      then show ?thesis using Inr vk by (simp add: process_versioned_def)
    next
      case (Some old)
      then have "0 < old" using inv by blast
      then show ?thesis using Inr vk Some by (auto simp: process_versioned_def)
    qed
  qed
  from inv unchanged shape change show ?thesis by blast
qed

theorem process_versioned_nonpositive_unchanged_witness:
  "walk_versioned [''a.2.ext'', ''b.7.css''] ''a.ext'' = Some 2 \<and>
   version_and_key ''a.0.ext'' = Inr (0, ''a.ext'') \<and>
   version_and_key ''a.-1.ext'' = Inr (- 1, ''a.ext'') \<and>
   process_versioned ''a.0.ext'' (walk_versioned [''a.2.ext'', ''b.7.css''])
     = walk_versioned [''a.2.ext'', ''b.7.css''] \<and>
   process_versioned ''a.-1.ext'' Map.empty = Map.empty"
proof -
  note main = process_versioned_nonpositive_unchanged
  have w: "walk_versioned [''a.2.ext'', ''b.7.css''] ''a.ext'' = Some 2"
    by code_simp
  have i0: "py_int ''0'' = Inr 0" and i1: "py_int ''-1'' = Inr (- 1)"
    by code_simp+
  have "version_and_key ([] @ ''a'' @ ''.'' @ ''0'' @ ''.'' @ ''ext'') = Inr (0, [] @ ''a'' @ ''.'' @ ''ext'')"
    using main [of _ _ _ _ _ "[]" "''a''" "''0''" 0 "''ext''"] i0 by simp
  then have z: "version_and_key ''a.0.ext'' = Inr (0, ''a.ext'')"
    by simp
  have "version_and_key ([] @ ''a'' @ ''.'' @ ''-1'' @ ''.'' @ ''ext'') = Inr (- 1, [] @ ''a'' @ ''.'' @ ''ext'')"
    using main [of _ _ _ _ _ "[]" "''a''" "''-1''" "- 1" "''ext''"] i1 by simp
  then have n: "version_and_key ''a.-1.ext'' = Inr (- 1, ''a.ext'')"
    by simp
  have pos: "\<forall>k v. walk_versioned [''a.2.ext'', ''b.7.css''] k = Some v \<longrightarrow> 0 \<le> v"
    using main [of "[''a.2.ext'', ''b.7.css'']"] by (meson less_imp_le)
  have u0: "process_versioned ''a.0.ext'' (walk_versioned [''a.2.ext'', ''b.7.css''])
              = walk_versioned [''a.2.ext'', ''b.7.css'']"
    using main [of _ "walk_versioned [''a.2.ext'', ''b.7.css'']" "''a.0.ext''" 0 "''a.ext''"] pos z
    by simp
  have u1: "process_versioned ''a.-1.ext'' Map.empty = Map.empty"
    using main [of _ Map.empty "''a.-1.ext''" "- 1" "''a.ext''"] n
    by simp
  from w z n u0 u1 show ?thesis by simp
qed

subsection \<open>Sibling resolver and tag index\<close>

lemma and_then_Inr [simp]: "and_then (Inr x) f = f x"
  by (simp add: and_then_def)

lemma and_then_Inl [simp]: "and_then (Inl e) f = Inl e"
  by (simp add: and_then_def)

lemma key_Some: "map_of pages a = Some p \<Longrightarrow> key pages a = Inr (weight p, a)"
  by (simp add: key_def)

lemma key_lt_int: "key_lt (Some x, a) (Some y, b) = Inr ((x, a) < (y, b))"
  by auto

lemma keyed_int:
  "\<forall>s\<in>set xs. \<exists>p. map_of pages s = Some p \<and> weight p = Some (w s) \<Longrightarrow>
     keyed pages xs = Inr (map (\<lambda>s. ((Some (w s), s), s)) xs)"
  by (induction xs) (auto simp: key_Some)

lemma insort_lt_int:
  "insort_lt ((Some (w x), x), x) (map (\<lambda>s. ((Some (w s), s), s)) ys)
     = Inr (map (\<lambda>s. ((Some (w s), s), s)) (insort_key (\<lambda>s. (w s, s)) x ys))"
  by (induction ys) (auto simp: key_lt_int simp del: key_lt.simps)

lemma sort_lt_int:
  "sort_lt (map (\<lambda>s. ((Some (w s), s), s)) xs)
     = Inr (map (\<lambda>s. ((Some (w s), s), s)) (sort_key (\<lambda>s. (w s, s)) xs))"
  by (induction xs) (simp_all add: insort_lt_int)

lemma sorted_by_key_int:
  "\<forall>s\<in>set xs. \<exists>p. map_of pages s = Some p \<and> weight p = Some (w s) \<Longrightarrow>
     sorted_by_key pages xs = Inr (sort_key (\<lambda>s. (w s, s)) xs)"
  by (simp add: sorted_by_key_def keyed_int sort_lt_int comp_def)

lemma partition_siblings_int:
  assumes "map_of pages me = Some pm" "weight pm = Some (w me)"
    and "\<forall>s\<in>set ss. \<exists>p. map_of pages s = Some p \<and> weight p = Some (w s)"
  shows "partition_siblings pages me ss
           = Inr (filter (\<lambda>s. (w s, s) < (w me, me)) ss, filter (\<lambda>s. \<not> (w s, s) < (w me, me)) ss)"
  using assms(3)
  by (induction ss) (auto simp: key_Some assms(1,2) key_lt_int simp del: key_lt.simps)

lemma sort_siblings_weighted_eq:
  assumes "map_of pages me = Some pm" "weight pm = Some (w me)"
    and "\<forall>s\<in>set sibs. \<exists>p. map_of pages s = Some p \<and> weight p = Some (w s)"
  shows "sort_siblings sibs me pages =
           (let ls = sort_key (\<lambda>s. (w s, s)) (filter (\<lambda>s. (w s, s) < (w me, me)) (removeAll me sibs));
                hs = sort_key (\<lambda>s. (w s, s)) (filter (\<lambda>s. \<not> (w s, s) < (w me, me)) (removeAll me sibs))
            in Inr (ls @ hs, if ls \<noteq> [] then Some (last ls) else None,
                             if hs \<noteq> [] then Some (hd hs) else None))"
proof -
  have 1: "\<forall>s\<in>set (removeAll me sibs). \<exists>p. map_of pages s = Some p \<and> weight p = Some (w s)"
    using assms(3) by simp
  have 2: "\<forall>s\<in>set (filter P (removeAll me sibs)). \<exists>p. map_of pages s = Some p \<and> weight p = Some (w s)" for P
    using assms(3) by simp
  show ?thesis
    by (simp add: sort_siblings_def assms(1,2) partition_siblings_int [OF assms(1,2) 1]
          sorted_by_key_int [OF 2] Let_def)
qed

lemma sort_siblings_unweighted_eq:
  assumes "map_of pages me = Some pm" "weight pm = None"
    and "\<forall>s\<in>set sibs. \<exists>p. map_of pages s = Some p \<and> weight p = Some (w s)"
  shows "sort_siblings sibs me pages = Inr (sort_key (\<lambda>s. (w s, s)) sibs, None, None)"
  by (simp add: sort_siblings_def assms(1,2) sorted_by_key_int [OF assms(3)])

lemma sorted_lighter_heavier:
  fixes f :: "'a \<Rightarrow> 'b::linorder"
  shows "sorted (map f (sort_key f (filter (\<lambda>s. f s < m) xs) @ sort_key f (filter (\<lambda>s. \<not> f s < m) xs)))"
  by (auto simp: sorted_append)


lemma sorted_fst_of_lex:
  fixes w :: "'a::linorder \<Rightarrow> 'b::linorder" and xs :: "'a list"
  shows "sorted (map (\<lambda>s. (w s, s)) xs) \<Longrightarrow> sorted (map w xs)"
  by (induction xs) (auto simp: less_eq_prod_def)

lemma inj_weight_id: "inj_on (\<lambda>s. (w s, s)) A"
  by (simp add: inj_on_def)

lemma qualifying_snoc:
  "qualifying (ps @ [(k, p)]) d =
     (if weight p \<noteq> None \<and> truthy (path p) \<and> dirname k = d then insert k (qualifying ps d)
      else qualifying ps d)"
  by (auto simp: qualifying_def)

lemma add_sibling_skip:
  "weight p = None \<or> \<not> truthy (path p) \<Longrightarrow> add_sibling (k, p) sd = sd"
  by (simp add: add_sibling_def)

lemma add_sibling_other:
  "dirname k \<noteq> d \<Longrightarrow> add_sibling (k, p) sd d = sd d"
  by (simp add: add_sibling_def Let_def)

lemma add_sibling_same:
  "weight p \<noteq> None \<Longrightarrow> truthy (path p) \<Longrightarrow>
     add_sibling (k, p) sd (dirname k)
       = Some (set_add k (case sd (dirname k) of None \<Rightarrow> [] | Some s \<Rightarrow> s))"
  by (auto simp: add_sibling_def Let_def)

lemma set_add_props:
  "set (set_add x s) = insert x (set s)" "distinct s \<Longrightarrow> distinct (set_add x s)" "set_add x s \<noteq> []"
  by (auto simp: set_add_def)

lemma build_sibling_dict_inv:
  "(build_sibling_dict ps d = None \<longrightarrow> qualifying ps d = {}) \<and>
   (\<forall>s. build_sibling_dict ps d = Some s \<longrightarrow> set s = qualifying ps d \<and> distinct s \<and> s \<noteq> [])"
proof (induction ps arbitrary: d rule: rev_induct)
  case Nil
  show ?case by (simp add: build_sibling_dict_def qualifying_def)
next
  case (snoc e ps)
  obtain k p where e: "e = (k, p)" by (cases e)
  have step: "build_sibling_dict (ps @ [e]) = add_sibling (k, p) (build_sibling_dict ps)"
    by (simp add: build_sibling_dict_def e)
  show ?case
  proof (cases "weight p = None \<or> \<not> truthy (path p)")
    case True
    then have "qualifying (ps @ [e]) d = qualifying ps d"
      unfolding e qualifying_snoc by auto
    then show ?thesis
      using snoc [of d] True by (simp add: step add_sibling_skip)
  next
    case False
    show ?thesis
    proof (cases "dirname k = d")
      case True
      have q: "qualifying (ps @ [e]) d = insert k (qualifying ps d)"
        unfolding e qualifying_snoc using False True by simp
      have r: "build_sibling_dict (ps @ [e]) d
                 = Some (set_add k (case build_sibling_dict ps d of None \<Rightarrow> [] | Some s \<Rightarrow> s))"
        using add_sibling_same [of p k "build_sibling_dict ps"] False True by (simp add: step)
      show ?thesis
      proof (cases "build_sibling_dict ps d")
        case None
        then show ?thesis
          using snoc [of d] by (simp add: q r set_add_props)
      next
        case (Some s0)
        then show ?thesis
          using snoc [of d] by (simp add: q r set_add_props)
      qed
    next
      case neq: False
      then have "qualifying (ps @ [e]) d = qualifying ps d"
        unfolding e qualifying_snoc by simp
      then show ?thesis
        using snoc [of d] neq by (simp add: step add_sibling_other)
    qed
  qed
qed


lemma key_same_weights: "same_weights P Q \<Longrightarrow> key P a = key Q a"
proof -
  assume "same_weights P Q"
  then have "map_option weight (map_of P a) = map_option weight (map_of Q a)"
    by (simp add: same_weights_def)
  then show ?thesis
    by (cases "map_of P a"; cases "map_of Q a") (simp_all add: key_def)
qed

lemma keyed_same_weights: "same_weights P Q \<Longrightarrow> keyed P xs = keyed Q xs"
  by (induction xs) (simp_all add: key_same_weights [of P Q])

lemma sorted_by_key_same_weights: "same_weights P Q \<Longrightarrow> sorted_by_key P xs = sorted_by_key Q xs"
  by (simp add: sorted_by_key_def keyed_same_weights [of P Q])

lemma partition_same_weights:
  "same_weights P Q \<Longrightarrow> partition_siblings P me xs = partition_siblings Q me xs"
  by (induction xs) (simp_all add: key_same_weights [of P Q])

lemma sort_siblings_same_weights:
  assumes "same_weights P Q"
  shows "sort_siblings sibs me P = sort_siblings sibs me Q"
proof -
  have w: "map_option weight (map_of P me) = map_option weight (map_of Q me)"
    using assms by (simp add: same_weights_def)
  show ?thesis
  proof (cases "map_of P me")
    case None
    then have "map_of Q me = None" using w by simp
    with None show ?thesis by (simp add: sort_siblings_def)
  next
    case (Some p)
    then obtain q where q: "map_of Q me = Some q" "weight q = weight p"
      using w by (cases "map_of Q me") auto
    show ?thesis
      by (simp add: sort_siblings_def Some q sorted_by_key_same_weights [OF assms]
            partition_same_weights [OF assms])
  qed
qed

lemma int_weight_Some:
  "map_of ps k = Some p \<Longrightarrow> weight p = Some x \<Longrightarrow> int_weight ps k = x"
  by (simp add: int_weight_def)

lemma sort_siblings_succeeds:
  assumes me: "map_of ps me = Some pm"
    and sibs: "\<forall>s\<in>set sibs. \<exists>q. map_of ps s = Some q \<and> weight q \<noteq> None"
  shows "\<exists>ss l h. sort_siblings sibs me ps = Inr (ss, l, h) \<and>
           set ss = set sibs - (if weight pm = None then {} else {me}) \<and>
           (weight pm = None \<longrightarrow> l = None \<and> h = None)"
proof -
  have w: "\<forall>s\<in>set sibs. \<exists>q. map_of ps s = Some q \<and> weight q = Some (int_weight ps s)"
    using sibs by (auto simp: int_weight_def)
  show ?thesis
  proof (cases "weight pm")
    case None
    then show ?thesis
      using sort_siblings_unweighted_eq [OF me None w] by simp
  next
    case (Some x)
    then have "weight pm = Some (int_weight ps me)"
      using me by (simp add: int_weight_def)
    from sort_siblings_weighted_eq [OF me this w] Some show ?thesis
      by (auto simp: Let_def)
  qed
qed


lemma same_weights_refl: "same_weights P P"
  by (simp add: same_weights_def)

lemma same_weights_update:
  assumes "same_weights P Q" "map_of P k = Some p" "weight p' = weight p"
  shows "same_weights (AList.update k p' P) Q"
proof -
  have "k \<in> set (map fst P)"
    using assms(2) by (metis map_of_eq_None_iff option.distinct(1) set_map)
  then have "map fst (AList.update k p' P) = map fst P"
    by (simp add: update_keys)
  moreover have "map_option weight (map_of (AList.update k p' P) a) = map_option weight (map_of P a)" for a
    using assms(2,3) by (simp add: update_conv')
  ultimately show ?thesis
    using assms(1) by (simp add: same_weights_def)
qed

lemma weight_resolved_page [simp]: "weight (resolved_page sd ps k p) = weight p"
  by (simp add: resolved_page_def split: option.splits sum.splits prod.splits)

lemma assign_siblings_step:
  assumes sw: "same_weights P P0" and good: "good_dict sd P0" and k: "map_of P k = Some p"
  shows "assign_siblings sd k P = Inr (AList.update k (resolved_page sd P0 k p) P)"
proof (cases "sd (dirname k)")
  case None
  have "AList.update k p P = P"
    using k by (simp add: map_of_eq_Some_iff update_triv)
  then show ?thesis
    using None by (simp add: assign_siblings_def resolved_page_def)
next
  case (Some sibs)
  have eq: "sort_siblings sibs k P = sort_siblings sibs k P0"
    by (rule sort_siblings_same_weights [OF sw])
  have "map_option weight (map_of P0 k) = map_option weight (map_of P k)"
    using sw by (simp add: same_weights_def)
  then obtain p0 where p0: "map_of P0 k = Some p0"
    using k by (cases "map_of P0 k") auto
  have "\<forall>s\<in>set sibs. \<exists>q. map_of P0 s = Some q \<and> weight q \<noteq> None"
    using good Some by (auto simp: good_dict_def)
  from sort_siblings_succeeds [OF p0 this]
  obtain ss l h where r: "sort_siblings sibs k P0 = Inr (ss, l, h)" by blast
  show ?thesis
    by (simp add: assign_siblings_def Some eq r k resolved_page_def)
qed

lemma assign_all_result:
  assumes good: "good_dict sd P0"
  shows "same_weights P P0 \<Longrightarrow> distinct ks \<Longrightarrow> set ks \<subseteq> dom (map_of P) \<Longrightarrow>
         \<exists>P'. assign_all sd ks P = Inr P' \<and> same_weights P' P0 \<and>
              (\<forall>k. map_of P' k =
                 (if k \<in> set ks then map_option (resolved_page sd P0 k) (map_of P k) else map_of P k))"
proof (induction ks arbitrary: P)
  case Nil
  then show ?case by simp
next
  case (Cons k ks)
  from Cons.prems(3) obtain p where p: "map_of P k = Some p" by auto
  let ?P1 = "AList.update k (resolved_page sd P0 k p) P"
  have step: "assign_siblings sd k P = Inr ?P1"
    by (rule assign_siblings_step [OF Cons.prems(1) good p])
  have sw1: "same_weights ?P1 P0"
    by (rule same_weights_update [OF Cons.prems(1) p]) simp
  have m1: "map_of ?P1 = (map_of P)(k \<mapsto> resolved_page sd P0 k p)"
    by (simp add: update_conv')
  have dom1: "set ks \<subseteq> dom (map_of ?P1)"
    using Cons.prems(3) by (auto simp: m1)
  from Cons.IH [OF sw1 _ dom1] Cons.prems(2)
  obtain P' where P': "assign_all sd ks ?P1 = Inr P'" "same_weights P' P0"
    "\<forall>k'. map_of P' k' =
       (if k' \<in> set ks then map_option (resolved_page sd P0 k') (map_of ?P1 k') else map_of ?P1 k')"
    by auto
  have "\<forall>k'. map_of P' k' =
          (if k' \<in> set (k # ks) then map_option (resolved_page sd P0 k') (map_of P k') else map_of P k')"
    using P'(3) Cons.prems(2) p by (auto simp: m1)
  then show ?case
    using step P'(1,2) by simp
qed


lemma good_build_sibling_dict:
  assumes "distinct (map fst pages)"
  shows "good_dict (build_sibling_dict pages) pages"
  unfolding good_dict_def
proof (intro allI impI ballI)
  fix d sibs s
  assume "build_sibling_dict pages d = Some sibs" "s \<in> set sibs"
  then have "s \<in> qualifying pages d"
    using build_sibling_dict_inv [of pages d] by simp
  then obtain p where "(s, p) \<in> set pages" "weight p \<noteq> None"
    by (auto simp: qualifying_def)
  then show "\<exists>q. map_of pages s = Some q \<and> weight q \<noteq> None"
    using assms by auto
qed

lemma fix_siblings_result:
  assumes "distinct (map fst pages)"
  shows "\<exists>P'. fix_siblings pages = Inr P' \<and> same_weights P' pages \<and>
           (\<forall>k. map_of P' k = map_option (resolved_page (build_sibling_dict pages) pages k) (map_of pages k))"
proof -
  have dom: "set (map fst pages) \<subseteq> dom (map_of pages)"
    by (auto simp: dom_map_of_conv_image_fst)
  from assign_all_result [OF good_build_sibling_dict [OF assms] same_weights_refl assms dom]
  obtain P' where P': "assign_all (build_sibling_dict pages) (map fst pages) pages = Inr P'"
      "same_weights P' pages"
      "\<forall>k. map_of P' k =
         (if k \<in> set (map fst pages)
          then map_option (resolved_page (build_sibling_dict pages) pages k) (map_of pages k)
          else map_of pages k)"
    by blast
  have "map_of P' k = map_option (resolved_page (build_sibling_dict pages) pages k) (map_of pages k)" for k
  proof (cases "k \<in> set (map fst pages)")
    case True
    then show ?thesis using P'(3) by simp
  next
    case False
    then have "map_of pages k = None"
      by (simp add: map_of_eq_None_iff)
    then show ?thesis using P'(3) False by simp
  qed
  then show ?thesis
    using P'(1,2) by (auto simp: fix_siblings_def)
qed

lemma qualifying_map_of:
  assumes "distinct (map fst pages)"
  shows "k \<in> qualifying pages d \<longleftrightarrow>
           (\<exists>p. map_of pages k = Some p \<and> weight p \<noteq> None \<and> truthy (path p) \<and> dirname k = d)"
  using assms by (auto simp: qualifying_def)


lemma sort_key_set_cong:
  fixes f :: "'a \<Rightarrow> 'b::linorder"
  assumes "inj_on f (set xs)" "distinct xs" "distinct ys" "set xs = set ys"
  shows "sort_key f xs = sort_key f ys"
proof (rule map_sorted_distinct_set_unique [of f])
  show "inj_on f (set (sort_key f xs) \<union> set (sort_key f ys))"
    using assms by simp
  show "distinct (map f (sort_key f xs))" "distinct (map f (sort_key f ys))"
    using assms by (simp_all add: distinct_map)
qed (use assms in simp_all)

lemma sort_siblings_order_independent:
  assumes "distinct xs" "distinct ys" "set xs = set ys"
    and "\<forall>s\<in>insert me (set xs). \<exists>p. map_of pages s = Some p \<and> weight p = Some (w s)"
  shows "sort_siblings xs me pages = sort_siblings ys me pages"
proof -
  let ?f = "\<lambda>s. (w s, s)"
  obtain pm where pm: "map_of pages me = Some pm" "weight pm = Some (w me)"
    using assms(4) by auto
  have x: "\<forall>s\<in>set xs. \<exists>p. map_of pages s = Some p \<and> weight p = Some (w s)"
    and y: "\<forall>s\<in>set ys. \<exists>p. map_of pages s = Some p \<and> weight p = Some (w s)"
    using assms(3,4) by auto
  have "sort_key ?f (filter P (removeAll me xs)) = sort_key ?f (filter P (removeAll me ys))" for P
    using assms(1-3) by (intro sort_key_set_cong) (auto simp: inj_on_def distinct_removeAll)
  then show ?thesis
    by (simp add: sort_siblings_weighted_eq [OF pm x] sort_siblings_weighted_eq [OF pm y])
qed

text \<open>
  Claim C1. Let every page of the sibling set and the subject have an integer weight \<open>w\<close>.
  Then \<open>sort_siblings\<close> returns the lighter set followed by the heavier set, where the
  lighter set holds the siblings other than the subject whose key \<open>(w s, s)\<close> is strictly
  less than the subject's and the heavier set holds the rest; each is in ascending order of
  the key and without repetition; the lighter neighbour is the last of the lighter set and
  the heavier neighbour the first of the heavier set, each absent when its set is empty.
  The whole list is in ascending order of the key, hence of the weight, the id breaking
  ties. By \<open>sort_siblings_order_independent\<close> the result is the same for every order in
  which the set is iterated.
\<close>

theorem sort_siblings_weighted:
  assumes "distinct sibs"
    and "\<forall>s\<in>insert me (set sibs). \<exists>p. map_of pages s = Some p \<and> weight p = Some (w s)"
  shows "\<exists>ls hs.
           sort_siblings sibs me pages
             = Inr (ls @ hs, (if ls = [] then None else Some (last ls)),
                             (if hs = [] then None else Some (hd hs))) \<and>
           set ls = {s \<in> set sibs - {me}. (w s, s) < (w me, me)} \<and>
           set hs = {s \<in> set sibs - {me}. \<not> (w s, s) < (w me, me)} \<and>
           sorted (map (\<lambda>s. (w s, s)) ls) \<and> sorted (map (\<lambda>s. (w s, s)) hs) \<and>
           distinct (ls @ hs) \<and>
           sorted (map (\<lambda>s. (w s, s)) (ls @ hs)) \<and> sorted (map w (ls @ hs))"
proof -
  let ?f = "\<lambda>s. (w s, s)"
  define ls where "ls = sort_key ?f (filter (\<lambda>s. ?f s < ?f me) (removeAll me sibs))"
  define hs where "hs = sort_key ?f (filter (\<lambda>s. \<not> ?f s < ?f me) (removeAll me sibs))"
  obtain pm where pm: "map_of pages me = Some pm" "weight pm = Some (w me)"
    using assms(2) by auto
  have sibs: "\<forall>s\<in>set sibs. \<exists>p. map_of pages s = Some p \<and> weight p = Some (w s)"
    using assms(2) by simp
  have res: "sort_siblings sibs me pages
               = Inr (ls @ hs, (if ls = [] then None else Some (last ls)),
                               (if hs = [] then None else Some (hd hs)))"
    using sort_siblings_weighted_eq [OF pm sibs] by (simp add: Let_def ls_def hs_def)
  have sl: "set ls = {s \<in> set sibs - {me}. ?f s < ?f me}"
    and sh: "set hs = {s \<in> set sibs - {me}. \<not> ?f s < ?f me}"
    by (auto simp: ls_def hs_def)
  have ol: "sorted (map ?f ls)" and oh: "sorted (map ?f hs)"
    by (simp_all add: ls_def hs_def)
  have d: "distinct (ls @ hs)"
    using assms(1) by (auto simp: ls_def hs_def distinct_removeAll)
  have o: "sorted (map ?f (ls @ hs))"
    unfolding ls_def hs_def by (rule sorted_lighter_heavier)
  from res sl sh ol oh d o sorted_fst_of_lex [OF o] show ?thesis
    by blast
qed

theorem sort_siblings_weighted_witness:
  "sort_siblings [''blog/b'', ''blog/a'', ''blog/c''] ''blog/a'' example_pages
     = Inr ([''blog/c'', ''blog/b''], Some ''blog/c'', Some ''blog/b'') \<and>
   (\<exists>ls hs.
      sort_siblings [''blog/b'', ''blog/a'', ''blog/c''] ''blog/a'' example_pages
        = Inr (ls @ hs, (if ls = [] then None else Some (last ls)),
                        (if hs = [] then None else Some (hd hs))) \<and>
      set ls = {''blog/c''} \<and> set hs = {''blog/b''})"
proof -
  let ?w = "\<lambda>s. if s = ''blog/c'' then 5 else (10::int)"
  have e: "sort_siblings [''blog/b'', ''blog/a'', ''blog/c''] ''blog/a'' example_pages
             = Inr ([''blog/c'', ''blog/b''], Some ''blog/c'', Some ''blog/b'')"
    by code_simp
  have h: "\<forall>s\<in>insert ''blog/a'' (set [''blog/b'', ''blog/a'', ''blog/c'']).
             \<exists>p. map_of example_pages s = Some p \<and> weight p = Some (?w s)"
    by (simp add: example_pages_def new_page_def)
  have d: "distinct [''blog/b'', ''blog/a'', ''blog/c'']"
    by simp
  have l: "{s \<in> set [''blog/b'', ''blog/a'', ''blog/c''] - {''blog/a''}. (?w s, s) < (?w ''blog/a'', ''blog/a'')}
             = {''blog/c''}"
    by auto
  have g: "{s \<in> set [''blog/b'', ''blog/a'', ''blog/c''] - {''blog/a''}. \<not> (?w s, s) < (?w ''blog/a'', ''blog/a'')}
             = {''blog/b''}"
    by auto
  from sort_siblings_weighted [OF d h] l g
  have "\<exists>ls hs.
      sort_siblings [''blog/b'', ''blog/a'', ''blog/c''] ''blog/a'' example_pages
        = Inr (ls @ hs, (if ls = [] then None else Some (last ls)),
                        (if hs = [] then None else Some (hd hs))) \<and>
      set ls = {''blog/c''} \<and> set hs = {''blog/b''}"
    by (metis (no_types, lifting))
  with e show ?thesis by blast
qed


text \<open>
  Claim C5. For every dictionary of pages as the builder makes them (distinct ids, the
  neighbour fields at their default), \<open>fix_siblings\<close> returns, and every page without a
  weight has no lighter and no heavier neighbour afterwards, whatever shares its directory.
  And \<open>sort_siblings\<close>, for a subject without a weight and a sibling set of pages with
  integer weights (the only sets that \<open>fix_siblings\<close> builds), returns the whole set in
  ascending order of the key with both neighbours absent.
\<close>

theorem unweighted_page_no_neighbours:
  "(distinct (map fst pages) \<and> (\<forall>(k, p)\<in>set pages. lighter p = None \<and> heavier p = None) \<longrightarrow>
      (\<exists>pages'. fix_siblings pages = Inr pages' \<and>
         (\<forall>k p'. map_of pages' k = Some p' \<and> weight p' = None
                   \<longrightarrow> lighter p' = None \<and> heavier p' = None))) \<and>
   (distinct sibs \<and> map_of pages me = Some pm \<and> weight pm = None \<and>
    (\<forall>s\<in>set sibs. \<exists>q. map_of pages s = Some q \<and> weight q = Some (w s)) \<longrightarrow>
      (\<exists>ss. sort_siblings sibs me pages = Inr (ss, None, None) \<and>
            set ss = set sibs \<and> distinct ss \<and> sorted (map (\<lambda>s. (w s, s)) ss)))"
proof (intro conjI impI)
  assume a: "distinct (map fst pages) \<and> (\<forall>(k, p)\<in>set pages. lighter p = None \<and> heavier p = None)"
  then have dist: "distinct (map fst pages)" by simp
  let ?sd = "build_sibling_dict pages"
  from fix_siblings_result [OF dist]
  obtain P' where P': "fix_siblings pages = Inr P'"
      "\<forall>k. map_of P' k = map_option (resolved_page ?sd pages k) (map_of pages k)"
    by blast
  have "lighter p' = None \<and> heavier p' = None" if "map_of P' k = Some p'" "weight p' = None" for k p'
  proof -
    from that(1) P'(2) obtain p where p: "map_of pages k = Some p" "p' = resolved_page ?sd pages k p"
      by (cases "map_of pages k") auto
    have wp: "weight p = None"
      using that(2) p(2) by simp
    have "(k, p) \<in> set pages"
      using p(1) by (rule map_of_SomeD)
    then have fresh: "lighter p = None" "heavier p = None"
      using a by auto
    show ?thesis
    proof (cases "?sd (dirname k)")
      case None
      then show ?thesis using fresh p(2) by (simp add: resolved_page_def)
    next
      case (Some sibs)
      have "\<forall>s\<in>set sibs. \<exists>q. map_of pages s = Some q \<and> weight q \<noteq> None"
        using good_build_sibling_dict [OF dist] Some by (auto simp: good_dict_def)
      from sort_siblings_succeeds [OF p(1) this] wp
      obtain ss where "sort_siblings sibs k pages = Inr (ss, None, None)"
        by auto
      then show ?thesis
        using Some p(2) by (simp add: resolved_page_def)
    qed
  qed
  then show "\<exists>pages'. fix_siblings pages = Inr pages' \<and>
         (\<forall>k p'. map_of pages' k = Some p' \<and> weight p' = None
                   \<longrightarrow> lighter p' = None \<and> heavier p' = None)"
    using P'(1) by blast
next
  assume b: "distinct sibs \<and> map_of pages me = Some pm \<and> weight pm = None \<and>
    (\<forall>s\<in>set sibs. \<exists>q. map_of pages s = Some q \<and> weight q = Some (w s))"
  then have "sort_siblings sibs me pages = Inr (sort_key (\<lambda>s. (w s, s)) sibs, None, None)"
    by (intro sort_siblings_unweighted_eq) auto
  moreover have "distinct (sort_key (\<lambda>s. (w s, s)) sibs)"
    using b by simp
  ultimately show "\<exists>ss. sort_siblings sibs me pages = Inr (ss, None, None) \<and>
            set ss = set sibs \<and> distinct ss \<and> sorted (map (\<lambda>s. (w s, s)) ss)"
    by simp
qed

theorem unweighted_page_no_neighbours_witness:
  "(\<exists>pages'. fix_siblings example_pages = Inr pages' \<and>
      (\<forall>k p'. map_of pages' k = Some p' \<and> weight p' = None
                \<longrightarrow> lighter p' = None \<and> heavier p' = None)) \<and>
   (\<exists>ss. sort_siblings [''blog/b'', ''blog/a'', ''blog/c''] ''blog/index'' example_pages
            = Inr (ss, None, None) \<and>
         set ss = set [''blog/b'', ''blog/a'', ''blog/c''] \<and> distinct ss \<and>
         sorted (map (\<lambda>s. (if s = ''blog/c'' then 5 else (10::int), s)) ss)) \<and>
   sort_siblings [''blog/b'', ''blog/a'', ''blog/c''] ''blog/index'' example_pages
     = Inr ([''blog/c'', ''blog/a'', ''blog/b''], None, None)"
proof -
  note main = unweighted_page_no_neighbours
    [of example_pages "[''blog/b'', ''blog/a'', ''blog/c'']" "''blog/index''"
        "new_page ''blog/index'' (Some []) ''blog'' (Some []) [] [] [] [] None"
        "\<lambda>s. if s = ''blog/c'' then 5 else (10::int)"]
  have h1: "distinct (map fst example_pages) \<and>
            (\<forall>(k, p)\<in>set example_pages. lighter p = None \<and> heavier p = None)"
    by (simp add: example_pages_def new_page_def)
  have h2: "distinct [''blog/b'', ''blog/a'', ''blog/c''] \<and>
            map_of example_pages ''blog/index''
              = Some (new_page ''blog/index'' (Some []) ''blog'' (Some []) [] [] [] [] None) \<and>
            weight (new_page ''blog/index'' (Some []) ''blog'' (Some []) [] [] [] [] None :: unit Page) = None \<and>
            (\<forall>s\<in>set [''blog/b'', ''blog/a'', ''blog/c''].
               \<exists>q. map_of example_pages s = Some q \<and>
                   weight q = Some (if s = ''blog/c'' then 5 else (10::int)))"
    by (simp add: example_pages_def new_page_def)
  have e: "sort_siblings [''blog/b'', ''blog/a'', ''blog/c''] ''blog/index'' example_pages
             = Inr ([''blog/c'', ''blog/a'', ''blog/b''], None, None)"
    by code_simp
  from main h1 h2 e show ?thesis by blast
qed


text \<open>
  Claim C9. \<open>fix_siblings\<close> returns and keeps the ids. Every page whose directory has at
  least one page with a weight and a non-empty output path gets the three fields that
  \<open>sort_siblings\<close> computes for it from that set, also when the page itself has no template;
  every other page is left as it was. The computed sibling list holds exactly the pages of
  the set (without the subject when it has a weight), so that a page without a template is
  in no sibling list.
\<close>

theorem fix_siblings_assigns:
  assumes "distinct (map fst pages)"
  shows "\<exists>pages'. fix_siblings pages = Inr pages' \<and> map fst pages' = map fst pages \<and>
    (\<forall>k p. map_of pages k = Some p \<longrightarrow>
       (if qualifying pages (dirname k) = {} then map_of pages' k = Some p
        else \<exists>sibs ss l h.
               set sibs = qualifying pages (dirname k) \<and> distinct sibs \<and>
               sort_siblings sibs k pages = Inr (ss, l, h) \<and>
               map_of pages' k = Some (p\<lparr>siblings := ss, lighter := l, heavier := h\<rparr>) \<and>
               set ss = qualifying pages (dirname k) - (if weight p = None then {} else {k}))) \<and>
    ((\<forall>(k, p)\<in>set pages. siblings p = []) \<longrightarrow>
       (\<forall>k p' t q. map_of pages' k = Some p' \<and> map_of pages t = Some q \<and> \<not> truthy (path q)
                     \<longrightarrow> t \<notin> set (siblings p')))"
proof -
  let ?sd = "build_sibling_dict pages"
  from fix_siblings_result [OF assms]
  obtain P' where P': "fix_siblings pages = Inr P'" "same_weights P' pages"
      "\<forall>k. map_of P' k = map_option (resolved_page ?sd pages k) (map_of pages k)"
    by blast
  have keys: "map fst P' = map fst pages"
    using P'(2) by (simp add: same_weights_def)
  have good: "good_dict ?sd pages"
    by (rule good_build_sibling_dict [OF assms])
  have none: "resolved_page ?sd pages k p = p" if "qualifying pages (dirname k) = {}" for k and p :: "'a Page"
  proof -
    have "?sd (dirname k) = None"
      using build_sibling_dict_inv [of pages "dirname k"] that
      by (cases "?sd (dirname k)") auto
    then show ?thesis by (simp add: resolved_page_def)
  qed
  have some: "\<exists>sibs ss l h.
               set sibs = qualifying pages (dirname k) \<and> distinct sibs \<and>
               sort_siblings sibs k pages = Inr (ss, l, h) \<and>
               resolved_page ?sd pages k p = p\<lparr>siblings := ss, lighter := l, heavier := h\<rparr> \<and>
               set ss = qualifying pages (dirname k) - (if weight p = None then {} else {k})"
    if q: "qualifying pages (dirname k) \<noteq> {}" and p: "map_of pages k = Some p" for k p
  proof -
    obtain sibs where sibs: "?sd (dirname k) = Some sibs"
      using build_sibling_dict_inv [of pages "dirname k"] q
      by (cases "?sd (dirname k)") auto
    then have s: "set sibs = qualifying pages (dirname k)" "distinct sibs"
      using build_sibling_dict_inv [of pages "dirname k"] by auto
    have "\<forall>s\<in>set sibs. \<exists>q. map_of pages s = Some q \<and> weight q \<noteq> None"
      using good sibs by (auto simp: good_dict_def)
    from sort_siblings_succeeds [OF p this]
    obtain ss l h where r: "sort_siblings sibs k pages = Inr (ss, l, h)"
      "set ss = set sibs - (if weight p = None then {} else {k})"
      by blast
    have "resolved_page ?sd pages k p = p\<lparr>siblings := ss, lighter := l, heavier := h\<rparr>"
      by (simp add: resolved_page_def sibs r(1))
    with s r show ?thesis by auto
  qed
  have part1: "\<forall>k p. map_of pages k = Some p \<longrightarrow>
       (if qualifying pages (dirname k) = {} then map_of P' k = Some p
        else \<exists>sibs ss l h.
               set sibs = qualifying pages (dirname k) \<and> distinct sibs \<and>
               sort_siblings sibs k pages = Inr (ss, l, h) \<and>
               map_of P' k = Some (p\<lparr>siblings := ss, lighter := l, heavier := h\<rparr>) \<and>
               set ss = qualifying pages (dirname k) - (if weight p = None then {} else {k}))"
  proof (intro allI impI)
    fix k p assume p: "map_of pages k = Some p"
    have m: "map_of P' k = Some (resolved_page ?sd pages k p)"
      using P'(3) p by simp
    show "if qualifying pages (dirname k) = {} then map_of P' k = Some p
        else \<exists>sibs ss l h.
               set sibs = qualifying pages (dirname k) \<and> distinct sibs \<and>
               sort_siblings sibs k pages = Inr (ss, l, h) \<and>
               map_of P' k = Some (p\<lparr>siblings := ss, lighter := l, heavier := h\<rparr>) \<and>
               set ss = qualifying pages (dirname k) - (if weight p = None then {} else {k})"
    proof (cases "qualifying pages (dirname k) = {}")
      case True
      then show ?thesis using m none [OF True] by simp
    next
      case False
      from some [OF False p] show ?thesis
        using False m by auto
    qed
  qed
  have part2: "\<forall>k p' t q. map_of P' k = Some p' \<and> map_of pages t = Some q \<and> \<not> truthy (path q)
                     \<longrightarrow> t \<notin> set (siblings p')"
    if fresh: "\<forall>(k, p)\<in>set pages. siblings p = []"
  proof (intro allI impI)
    fix k p' t q
    assume a: "map_of P' k = Some p' \<and> map_of pages t = Some q \<and> \<not> truthy (path q)"
    then obtain p where p: "map_of pages k = Some p" "p' = resolved_page ?sd pages k p"
      using P'(3) by (cases "map_of pages k") auto
    have tq: "t \<notin> qualifying pages d" for d
    proof
      assume "t \<in> qualifying pages d"
      then obtain r where "map_of pages t = Some r" "truthy (path r)"
        unfolding qualifying_map_of [OF assms] by blast
      then show False using a by simp
    qed
    show "t \<notin> set (siblings p')"
    proof (cases "qualifying pages (dirname k) = {}")
      case True
      have "(k, p) \<in> set pages" using p(1) by (rule map_of_SomeD)
      then have "siblings p = []" using fresh by auto
      then show ?thesis using none [OF True] p(2) by simp
    next
      case False
      from some [OF False p(1)] obtain ss l h where
        "p' = p\<lparr>siblings := ss, lighter := l, heavier := h\<rparr>"
        "set ss = qualifying pages (dirname k) - (if weight p = None then {} else {k})"
        using p(2) by auto
      then show ?thesis using tq [of "dirname k"] by auto
    qed
  qed
  from P'(1) keys part1 part2 show ?thesis by blast
qed


lemma qualifying_Cons:
  "qualifying ((k, p) # ps) d =
     (if weight p \<noteq> None \<and> truthy (path p) \<and> dirname k = d then insert k (qualifying ps d)
      else qualifying ps d)"
  by (auto simp: qualifying_def)

lemma qualifying_Nil: "qualifying [] d = {}"
  by (simp add: qualifying_def)

theorem fix_siblings_assigns_witness:
  "(\<exists>pages'. fix_siblings example_pages = Inr pages' \<and>
      map fst pages' = map fst example_pages \<and>
      (\<exists>sibs ss l h.
          set sibs = qualifying example_pages (dirname ''blog/notes'') \<and> distinct sibs \<and>
          sort_siblings sibs ''blog/notes'' example_pages = Inr (ss, l, h) \<and>
          map_of pages' ''blog/notes''
            = Some ((new_page ''blog/notes'' (Some []) ''blog'' (Some []) [] [] [] [] (Some 0))
                      \<lparr>siblings := ss, lighter := l, heavier := h\<rparr>) \<and>
          set ss = qualifying example_pages (dirname ''blog/notes'')) \<and>
      (\<forall>k p'. map_of pages' k = Some p' \<longrightarrow> ''blog/notes'' \<notin> set (siblings p'))) \<and>
   qualifying example_pages (dirname ''blog/notes'') = {''blog/a'', ''blog/b'', ''blog/c''} \<and>
   (case fix_siblings example_pages of
      Inr ps \<Rightarrow> map_option (\<lambda>p. (siblings p, lighter p, heavier p)) (map_of ps ''blog/notes'')
    | Inl e \<Rightarrow> None)
     = Some ([''blog/c'', ''blog/a'', ''blog/b''], None, Some ''blog/c'')"
proof -
  let ?notes = "new_page ''blog/notes'' (Some []) ''blog'' (Some []) [] [] [] [] (Some 0) :: unit Page"
  let ?Q = "qualifying example_pages (dirname ''blog/notes'')"
  have d: "distinct (map fst example_pages)"
    by (simp add: example_pages_def)
  have fresh: "\<forall>(k, p)\<in>set example_pages. siblings p = []"
    by (simp add: example_pages_def new_page_def)
  have n: "map_of example_pages ''blog/notes'' = Some ?notes"
    by (simp add: example_pages_def)
  have dn: "dirname ''blog/notes'' = ''blog''"
    by (simp add: dirname_def)
  have dirs: "dirname ''about'' = []" "dirname ''blog/index'' = ''blog''"
    "dirname ''blog/a'' = ''blog''" "dirname ''blog/b'' = ''blog''" "dirname ''blog/c'' = ''blog''"
    by (simp_all add: dirname_def)
  have q: "?Q = {''blog/a'', ''blog/b'', ''blog/c''}"
    unfolding dn example_pages_def
    by (simp add: qualifying_Cons qualifying_Nil new_page_def truthy_def dirs dn insert_commute)
  have qne: "?Q \<noteq> {}" and qm: "?Q - {''blog/notes''} = ?Q"
    unfolding q by auto
  have t: "\<not> truthy (path ?notes)" and w: "weight ?notes \<noteq> None"
    by (simp_all add: truthy_def new_page_def)
  from fix_siblings_assigns [OF d]
  obtain pages' where P: "fix_siblings example_pages = Inr pages'"
      "map fst pages' = map fst example_pages"
      "\<forall>k p. map_of example_pages k = Some p \<longrightarrow>
       (if qualifying example_pages (dirname k) = {} then map_of pages' k = Some p
        else \<exists>sibs ss l h.
               set sibs = qualifying example_pages (dirname k) \<and> distinct sibs \<and>
               sort_siblings sibs k example_pages = Inr (ss, l, h) \<and>
               map_of pages' k = Some (p\<lparr>siblings := ss, lighter := l, heavier := h\<rparr>) \<and>
               set ss = qualifying example_pages (dirname k) - (if weight p = None then {} else {k}))"
      "(\<forall>(k, p)\<in>set example_pages. siblings p = []) \<longrightarrow>
       (\<forall>k p' t q. map_of pages' k = Some p' \<and> map_of example_pages t = Some q \<and> \<not> truthy (path q)
                     \<longrightarrow> t \<notin> set (siblings p'))"
    by blast
  from P(3) [rule_format, OF n] qne
  have "\<exists>sibs ss l h.
               set sibs = ?Q \<and> distinct sibs \<and>
               sort_siblings sibs ''blog/notes'' example_pages = Inr (ss, l, h) \<and>
               map_of pages' ''blog/notes'' = Some (?notes\<lparr>siblings := ss, lighter := l, heavier := h\<rparr>) \<and>
               set ss = ?Q - (if weight ?notes = None then {} else {''blog/notes''})"
    by (simp only: if_False)
  then have a: "\<exists>sibs ss l h.
          set sibs = ?Q \<and> distinct sibs \<and>
          sort_siblings sibs ''blog/notes'' example_pages = Inr (ss, l, h) \<and>
          map_of pages' ''blog/notes'' = Some (?notes\<lparr>siblings := ss, lighter := l, heavier := h\<rparr>) \<and>
          set ss = ?Q"
    using w by (simp only: if_False qm)
  have b: "\<forall>k p'. map_of pages' k = Some p' \<longrightarrow> ''blog/notes'' \<notin> set (siblings p')"
    using P(4) fresh n t by blast
  have c: "(case fix_siblings example_pages of
      Inr ps \<Rightarrow> map_option (\<lambda>p. (siblings p, lighter p, heavier p)) (map_of ps ''blog/notes'')
    | Inl e \<Rightarrow> None)
     = Some ([''blog/c'', ''blog/a'', ''blog/b''], None, Some ''blog/c'')"
    by code_simp
  from P(1,2) a b have "\<exists>pages'. fix_siblings example_pages = Inr pages' \<and>
      map fst pages' = map fst example_pages \<and>
      (\<exists>sibs ss l h.
          set sibs = ?Q \<and> distinct sibs \<and>
          sort_siblings sibs ''blog/notes'' example_pages = Inr (ss, l, h) \<and>
          map_of pages' ''blog/notes'' = Some (?notes\<lparr>siblings := ss, lighter := l, heavier := h\<rparr>) \<and>
          set ss = ?Q) \<and>
      (\<forall>k p'. map_of pages' k = Some p' \<longrightarrow> ''blog/notes'' \<notin> set (siblings p'))"
    by (intro exI [of _ pages'] conjI)
  with q c show ?thesis by (intro conjI)
qed

text \<open>
  Claim C6 fails on the code. With the two pages \<open>a\<close> (weight 0) and \<open>index\<close> (no weight)
  carrying the same tag, sorting the tag's list compares \<^verbatim>\<open>(0, "a")\<close> with
  \<^verbatim>\<open>(None, "index")\<close> and \<open>process_tags\<close> raises \<open>TypeError\<close>.
\<close>

theorem process_tags_mixed_weights_raises:
  "process_tags tagged_pages = Inl TypeError"
  by code_simp


subsection \<open>Build engine\<close>

lemma universal_newlines_id: "CHR 0x0D \<notin> set s \<Longrightarrow> universal_newlines s = s"
  by (induction s rule: universal_newlines.induct) auto

lemma status_message_proj [simp]:
  "files (status_message m w) = files w"
  "clock (status_message m w) = clock w"
  "written (status_message m w) = written w"
  "messages (status_message m w) = messages w @ [m]"
  by (simp_all add: status_message_def)

lemma write_text_proj [simp]:
  "files (write_text w p s) = (files w)(p \<mapsto> \<lparr>file_text = s, mtime_ns = clock w\<rparr>)"
  "clock (write_text w p s) = clock w + 1"
  "written (write_text w p s) = written w @ [p]"
  "messages (write_text w p s) = messages w"
  by (simp_all add: write_text_def)

lemma read_text_files: "files w' p = files w p \<Longrightarrow> read_text w' p = read_text w p"
  by (simp add: read_text_def)

lemma read_text_status [simp]: "read_text (status_message m w) p = read_text w p"
  by (simp add: read_text_def)

lemma newer_output_files:
  "files w' (output_path task) = files w (output_path task) \<Longrightarrow> newer_output w' task = newer_output w task"
  by (simp add: newer_output_def)

lemma output_task_eq:
  "output_task render ps quick task w =
     (if quick \<and> newer_output w task then (None, w) else render_and_write render ps task w)"
  by (cases "files w (output_path task)") (simp_all add: output_task_def newer_output_def)

lemma render_and_write_KeyError:
  "map_of ps (page_id task) = None \<Longrightarrow>
     render_and_write render ps task w = (Some KeyError, status_message (''Writing '' @ page_id task) w)"
  by (simp add: render_and_write_def Let_def)

lemma render_and_write_raises:
  "map_of ps (page_id task) = Some page \<Longrightarrow> render page task = Inl e \<Longrightarrow>
     render_and_write render ps task w = (Some e, status_message (''Writing '' @ page_id task) w)"
  by (simp add: render_and_write_def Let_def)

lemma render_and_write_renders:
  "map_of ps (page_id task) = Some page \<Longrightarrow> render page task = Inr out \<Longrightarrow>
     render_and_write render ps task w =
       (None, if read_text w (output_path task) = Some out
              then status_message (''Writing '' @ page_id task) w
              else write_text (status_message (''Writing '' @ page_id task) w) (output_path task) out)"
  by (simp add: render_and_write_def Let_def del: append.simps)



lemma render_and_write_frame:
  "p \<noteq> output_path task \<Longrightarrow> files (snd (render_and_write render ps task w)) p = files w p"
proof (cases "map_of ps (page_id task)")
  case None
  then show ?thesis by (simp add: render_and_write_KeyError del: append.simps)
next
  case (Some page)
  assume p: "p \<noteq> output_path task"
  show ?thesis
  proof (cases "render page task")
    case (Inl e)
    with Some show ?thesis by (simp add: render_and_write_raises del: append.simps)
  next
    case (Inr out)
    with Some p show ?thesis by (simp add: render_and_write_renders del: append.simps)
  qed
qed

lemma output_task_frame:
  "p \<noteq> output_path task \<Longrightarrow> files (snd (output_task render ps quick task w)) p = files w p"
  by (simp add: output_task_eq render_and_write_frame)











lemma settled_files_cong:
  assumes "files w' (output_path task) = files w (output_path task)"
  shows "settled render ps quick w' task = settled render ps quick w task"
  unfolding settled_def newer_output_files [OF assms] read_text_files [OF assms] ..

lemma settled_rendered:
  "map_of ps (page_id task) = Some page \<Longrightarrow> render page task = Inr out \<Longrightarrow>
     settled render ps quick w task
       = ((quick \<and> newer_output w task) \<or> read_text w (output_path task) = Some out)"
  by (simp add: settled_def)

lemma settled_not_rendered:
  "map_of ps (page_id task) = None \<or> (\<exists>page e. map_of ps (page_id task) = Some page \<and> render page task = Inl e) \<Longrightarrow>
     settled render ps quick w task = (quick \<and> newer_output w task)"
  by (auto simp: settled_def)

lemma output_task_settles:
  assumes r: "output_task render ps quick task w = (None, w')"
    and cr: "\<forall>page out. map_of ps (page_id task) = Some page \<and> render page task = Inr out
           \<longrightarrow> CHR 0x0D \<notin> set out"
  shows "settled render ps quick w' task"
proof (cases "quick \<and> newer_output w task")
  case True
  then have "w' = w"
    using r by (simp add: output_task_eq)
  with True show ?thesis by (simp add: settled_def)
next
  case False
  then have "output_task render ps quick task w = render_and_write render ps task w"
    by (auto simp: output_task_eq)
  then have rw: "render_and_write render ps task w = (None, w')"
    using r by simp
  show ?thesis
  proof (cases "map_of ps (page_id task)")
    case None
    then show ?thesis using rw by (simp add: render_and_write_KeyError del: append.simps)
  next
    case (Some page)
    show ?thesis
    proof (cases "render page task")
      case (Inl e)
      then show ?thesis using rw Some by (simp add: render_and_write_raises del: append.simps)
    next
      case (Inr out)
      have nl: "universal_newlines out = out"
        using cr Some Inr by (simp add: universal_newlines_id)
      let ?w1 = "status_message (''Writing '' @ page_id task) w"
      have w': "w' = (if read_text w (output_path task) = Some out then ?w1
                      else write_text ?w1 (output_path task) out)"
        using rw render_and_write_renders [of ps task page render out w] Some Inr by simp
      have "read_text w' (output_path task) = Some out"
      proof (cases "read_text w (output_path task) = Some out")
        case True
        then show ?thesis by (simp add: w' del: append.simps)
      next
        case neq: False
        then have "w' = write_text ?w1 (output_path task) out"
          by (simp add: w' del: append.simps)
        then show ?thesis
          by (simp add: read_text_def nl del: append.simps)
      qed
      moreover have "settled render ps quick w' task
              = ((quick \<and> newer_output w' task) \<or> read_text w' (output_path task) = Some out)"
        using Some Inr by (rule settled_rendered)
      ultimately show ?thesis by blast
    qed
  qed
qed

lemma output_tasks_settle:
  "output_tasks render ps quick tasks w = (None, w') \<Longrightarrow>
   distinct (map output_path tasks) \<Longrightarrow>
   \<forall>t\<in>set tasks. \<forall>page out. map_of ps (page_id t) = Some page \<and> render page t = Inr out
      \<longrightarrow> CHR 0x0D \<notin> set out \<Longrightarrow>
     (\<forall>t\<in>set tasks. settled render ps quick w' t) \<and>
     (\<forall>p. p \<notin> output_path ` set tasks \<longrightarrow> files w' p = files w p)"
proof (induction tasks arbitrary: w)
  case Nil
  then show ?case by simp
next
  case (Cons t ts)
  obtain e wa where r: "output_task render ps quick t w = (e, wa)"
    by (cases "output_task render ps quick t w")
  have e: "e = None"
    using Cons.prems(1) r by (cases e) simp_all
  have rest: "output_tasks render ps quick ts wa = (None, w')"
    using Cons.prems(1) r e by simp
  have cr: "\<forall>page out. map_of ps (page_id t) = Some page \<and> render page t = Inr out
              \<longrightarrow> CHR 0x0D \<notin> set out"
    using Cons.prems(3) by (meson list.set_intros(1))
  have r': "output_task render ps quick t w = (None, wa)"
    using r e by simp
  have st: "settled render ps quick wa t"
    using r' cr by (rule output_task_settles)
  have d: "distinct (map output_path ts)" and notin: "output_path t \<notin> output_path ` set ts"
    using Cons.prems(2) by simp_all
  have crs: "\<forall>t\<in>set ts. \<forall>page out. map_of ps (page_id t) = Some page \<and> render page t = Inr out
      \<longrightarrow> CHR 0x0D \<notin> set out"
    using Cons.prems(3) by (meson list.set_intros(2))
  from Cons.IH [OF rest d crs]
  have ih1: "\<forall>t\<in>set ts. settled render ps quick w' t"
    and ih2: "\<forall>p. p \<notin> output_path ` set ts \<longrightarrow> files w' p = files wa p"
    by blast+
  have "files w' (output_path t) = files wa (output_path t)"
    using ih2 notin by blast
  then have "settled render ps quick w' t = settled render ps quick wa t"
    by (rule settled_files_cong)
  then have st': "settled render ps quick w' t"
    using st by simp
  have fr: "files w' p = files w p" if "p \<notin> output_path ` set (t # ts)" for p
  proof -
    have "p \<noteq> output_path t" "p \<notin> output_path ` set ts"
      using that by auto
    then have "files wa p = files w p" "files w' p = files wa p"
      using output_task_frame [of p t render ps quick w] r ih2 by simp_all
    then show ?thesis by simp
  qed
  show ?case
    using st' ih1 fr by simp
qed

lemma output_task_settled_no_write:
  assumes "settled render ps quick w task"
  shows "\<exists>w'. output_task render ps quick task w = (None, w') \<and> files w' = files w \<and>
               written w' = written w \<and> clock w' = clock w"
proof (cases "quick \<and> newer_output w task")
  case True
  then show ?thesis by (simp add: output_task_eq)
next
  case False
  show ?thesis
  proof (cases "map_of ps (page_id task)")
    case None
    then show ?thesis using assms False by (simp add: settled_def)
  next
    case (Some page)
    show ?thesis
    proof (cases "render page task")
      case (Inl e)
      then show ?thesis using assms False Some by (simp add: settled_def)
    next
      case (Inr out)
      have "settled render ps quick w task
              = ((quick \<and> newer_output w task) \<or> read_text w (output_path task) = Some out)"
        using Some Inr by (rule settled_rendered)
      then have rd: "read_text w (output_path task) = Some out"
        using assms False by blast
      have "output_task render ps quick task w = render_and_write render ps task w"
        using False by (auto simp: output_task_eq)
      also have "\<dots> = (None, status_message (''Writing '' @ page_id task) w)"
        using render_and_write_renders [of ps task page render out w] Some Inr rd by simp
      finally show ?thesis by simp
    qed
  qed
qed

lemma output_tasks_settled_no_write:
  "\<forall>t\<in>set tasks. settled render ps quick w t \<Longrightarrow>
     \<exists>w'. output_tasks render ps quick tasks w = (None, w') \<and> files w' = files w \<and>
          written w' = written w \<and> clock w' = clock w"
proof (induction tasks arbitrary: w)
  case Nil
  then show ?case by simp
next
  case (Cons t ts)
  have "settled render ps quick w t"
    using Cons.prems by simp
  from output_task_settled_no_write [OF this]
  obtain wa where wa: "output_task render ps quick t w = (None, wa)" "files wa = files w"
    "written wa = written w" "clock wa = clock w"
    by blast
  have "settled render ps quick wa u = settled render ps quick w u" for u
    using wa(2) by (intro settled_files_cong) simp
  then have "\<forall>t\<in>set ts. settled render ps quick wa t"
    using Cons.prems by simp
  from Cons.IH [OF this] obtain w' where
    "output_tasks render ps quick ts wa = (None, w')" "files w' = files wa"
    "written w' = written wa" "clock w' = clock wa"
    by blast
  then show ?case using wa by simp
qed

lemma output_task_writes_iff:
  assumes "map_of ps (page_id task) = Some page" "render page task = Inr out"
    and "\<not> (quick \<and> newer_output w task)"
  shows "written (snd (output_task render ps quick task w)) =
           (if read_text w (output_path task) = Some out then written w
            else written w @ [output_path task])"
proof -
  have "output_task render ps quick task w = render_and_write render ps task w"
    using assms(3) by (auto simp: output_task_eq)
  then show ?thesis
    using render_and_write_renders [of ps task page render out w] assms(1,2) by simp
qed


text \<open>
  Claim C8, as the code has it. A task that is rendered writes its output file exactly when
  the rendered text differs from the text read from the file (or there is no file). And
  when the output paths of the tasks are pairwise different and no rendered text contains a
  carriage return, a run that has ended without an exception leaves the output directory
  such that a further run with the same sources (the same tasks, the same renderer, the
  same mode) ends without an exception, writes nothing and leaves every file with its text
  and its modification time.
\<close>

theorem unchanged_second_run:
  "(map_of ps (page_id task) = Some page \<and> render page task = Inr out \<and>
    \<not> (quick \<and> newer_output w task) \<longrightarrow>
      written (snd (output_task render ps quick task w)) =
        (if read_text w (output_path task) = Some out then written w
         else written w @ [output_path task])) \<and>
   (distinct (map output_path tasks) \<and>
    (\<forall>t\<in>set tasks. \<forall>page out. map_of ps (page_id t) = Some page \<and> render page t = Inr out
        \<longrightarrow> CHR 0x0D \<notin> set out) \<and>
    output_tasks render ps quick tasks w0 = (None, w1) \<and> files w2 = files w1 \<longrightarrow>
      (\<exists>w3. output_tasks render ps quick tasks w2 = (None, w3) \<and> files w3 = files w2 \<and>
            written w3 = written w2 \<and> clock w3 = clock w2))"
proof (intro conjI impI)
  assume "map_of ps (page_id task) = Some page \<and> render page task = Inr out \<and>
    \<not> (quick \<and> newer_output w task)"
  then show "written (snd (output_task render ps quick task w)) =
        (if read_text w (output_path task) = Some out then written w
         else written w @ [output_path task])"
    by (intro output_task_writes_iff) blast+
next
  assume a: "distinct (map output_path tasks) \<and>
    (\<forall>t\<in>set tasks. \<forall>page out. map_of ps (page_id t) = Some page \<and> render page t = Inr out
        \<longrightarrow> CHR 0x0D \<notin> set out) \<and>
    output_tasks render ps quick tasks w0 = (None, w1) \<and> files w2 = files w1"
  then have run: "output_tasks render ps quick tasks w0 = (None, w1)"
    and d: "distinct (map output_path tasks)"
    and cr: "\<forall>t\<in>set tasks. \<forall>page out. map_of ps (page_id t) = Some page \<and> render page t = Inr out
        \<longrightarrow> CHR 0x0D \<notin> set out"
    and f: "files w2 = files w1"
    by blast+
  from output_tasks_settle [OF run d cr]
  have s1: "\<forall>t\<in>set tasks. settled render ps quick w1 t"
    by blast
  have "settled render ps quick w2 u = settled render ps quick w1 u" for u
    using f by (intro settled_files_cong) simp
  then have "\<forall>t\<in>set tasks. settled render ps quick w2 t"
    using s1 by simp
  then show "\<exists>w3. output_tasks render ps quick tasks w2 = (None, w3) \<and> files w3 = files w2 \<and>
            written w3 = written w2 \<and> clock w3 = clock w2"
    by (rule output_tasks_settled_no_write)
qed


theorem unchanged_second_run_witness:
  "written (snd (output_task render_id example_pages False (hd site_tasks) built_world))
     = [''about.html''] \<and>
   fst (output_tasks render_id example_pages True site_tasks built_world) = None \<and>
   written (snd (output_tasks render_id example_pages True site_tasks built_world))
     = [''blog/a.html''] \<and>
   (\<exists>w3. output_tasks render_id example_pages True site_tasks
           (snd (output_tasks render_id example_pages True site_tasks built_world)) = (None, w3) \<and>
         files w3 = files (snd (output_tasks render_id example_pages True site_tasks built_world)) \<and>
         written w3 = [''blog/a.html''])"
proof -
  let ?w1 = "snd (output_tasks render_id example_pages True site_tasks built_world)"
  let ?about = "new_page ''about'' (Some ''about.html'') ''.'' (Some ''about.html'') [''blog''] [] [] [] (Some 0) :: unit Page"
  note main1 = unchanged_second_run [where render = render_id and ps = example_pages
      and task = "hd site_tasks" and page = ?about and out = "''about''" and quick = False
      and w = built_world]
  note main2 = unchanged_second_run [where render = render_id and ps = example_pages
      and quick = True and tasks = site_tasks and ?w0.0 = built_world and ?w1.0 = ?w1 and ?w2.0 = ?w1]
  have h1: "map_of example_pages (page_id (hd site_tasks)) = Some ?about"
    by (simp add: example_pages_def site_tasks_def)
  have h2: "render_id ?about (hd site_tasks) = Inr ''about''"
    by (simp add: render_id_def new_page_def)
  have rd: "read_text built_world (output_path (hd site_tasks)) \<noteq> Some ''about''"
    by (simp add: read_text_def built_world_def site_tasks_def)
  have wb: "written built_world = []" and op: "output_path (hd site_tasks) = ''about.html''"
    by (simp_all add: built_world_def site_tasks_def)
  have "written (snd (output_task render_id example_pages False (hd site_tasks) built_world)) =
        (if read_text built_world (output_path (hd site_tasks)) = Some ''about'' then written built_world
         else written built_world @ [output_path (hd site_tasks)])"
    using main1 h1 h2 by blast
  then have a: "written (snd (output_task render_id example_pages False (hd site_tasks) built_world))
             = [''about.html'']"
    using rd by (simp add: wb op)
  have d: "distinct (map output_path site_tasks)"
    by (simp add: site_tasks_def)
  have cr: "\<forall>t\<in>set site_tasks. \<forall>page out.
              map_of example_pages (page_id t) = Some page \<and> render_id page t = Inr out
              \<longrightarrow> CHR 0x0D \<notin> set out"
    by (auto simp: site_tasks_def example_pages_def render_id_def new_page_def)
  have ok: "fst (output_tasks render_id example_pages True site_tasks built_world) = None"
    by code_simp
  then have run1: "output_tasks render_id example_pages True site_tasks built_world = (None, ?w1)"
    by (metis prod.collapse)
  have wr: "written ?w1 = [''blog/a.html'']"
    by code_simp
  from main2 d cr run1
  have "\<exists>w3. output_tasks render_id example_pages True site_tasks ?w1 = (None, w3) \<and>
             files w3 = files ?w1 \<and> written w3 = written ?w1 \<and> clock w3 = clock ?w1"
    by blast
  then have e: "\<exists>w3. output_tasks render_id example_pages True site_tasks ?w1 = (None, w3) \<and>
             files w3 = files ?w1 \<and> written w3 = [''blog/a.html'']"
    unfolding wr by blast
  from a ok wr e show ?thesis by (intro conjI)
qed

text \<open>
  The claim as worded fails. With the two tasks of \<^verbatim>\<open>a.page\<close> and \<^verbatim>\<open>a.b.page\<close>, which
  share the output path \<^verbatim>\<open>a.html\<close>, a full build writes the file twice and a second full
  build writes it twice again. And with a rendered text that ends in \<^verbatim>\<open>\r\n\<close> the text
  read back is not the text written, so that a second build writes the file again.
\<close>

theorem second_run_rewrites_counterexample:
  "fst (output_tasks render_id clash_pages False clash_tasks empty_world) = None \<and>
   written (snd (output_tasks render_id clash_pages False clash_tasks empty_world))
     = [''a.html'', ''a.html''] \<and>
   fst (output_tasks render_id clash_pages False clash_tasks
          (snd (output_tasks render_id clash_pages False clash_tasks empty_world))) = None \<and>
   written (snd (output_tasks render_id clash_pages False clash_tasks
                   (snd (output_tasks render_id clash_pages False clash_tasks empty_world))))
     = [''a.html'', ''a.html'', ''a.html'', ''a.html''] \<and>
   written (snd (output_tasks render_crlf clash_pages False (take 1 clash_tasks) empty_world))
     = [''a.html''] \<and>
   written (snd (output_tasks render_crlf clash_pages False (take 1 clash_tasks)
                   (snd (output_tasks render_crlf clash_pages False (take 1 clash_tasks) empty_world))))
     = [''a.html'', ''a.html'']"
  by code_simp


subsection \<open>Content decoder\<close>














subsection \<open>Weight resolution\<close>

lemma process_weight_absent:
  "toml ''weight'' = None \<Longrightarrow>
     process_weight toml pid = (if endswith pid ''index'' then Inr None else Inr (Some 0))"
  by (simp add: process_weight_def)

lemma process_weight_present:
  "toml ''weight'' = Some v \<Longrightarrow>
     process_weight toml pid =
       (case v of TInteger n \<Rightarrow> Inr (Some n)
                | TBoolean b \<Rightarrow> Inr (Some (if b then 1 else 0))
                | TString s \<Rightarrow> if s = ''None'' then Inr None else Inl TypeError
                | _ \<Rightarrow> Inl TypeError)"
  by (cases v) (simp_all add: process_weight_def)

text \<open>
  Claim C4, as the code has it. Weight resolution yields 0 when the weight field is absent
  and the page id does not end with the characters \<open>index\<close>; the unweighted value when the
  field is absent and the id ends with \<open>index\<close>, or when the field is the string \<open>None\<close>;
  the integer itself when the field is an integer; and a \<open>TypeError\<close> for every other
  value that is not a boolean.
\<close>

theorem process_weight_resolution:
  "(toml ''weight'' = None \<and> \<not> endswith pid ''index''
      \<longrightarrow> process_weight toml pid = Inr (Some 0)) \<and>
   (toml ''weight'' = None \<and> endswith pid ''index''
      \<longrightarrow> process_weight toml pid = Inr None) \<and>
   (toml ''weight'' = Some (TString ''None'')
      \<longrightarrow> process_weight toml pid = Inr None) \<and>
   (toml ''weight'' = Some (TInteger n)
      \<longrightarrow> process_weight toml pid = Inr (Some n)) \<and>
   (toml ''weight'' = Some v \<and> v \<noteq> TString ''None'' \<and> (\<forall>k. v \<noteq> TInteger k) \<and> (\<forall>b. v \<noteq> TBoolean b)
      \<longrightarrow> process_weight toml pid = Inl TypeError)"
proof -
  have "process_weight toml pid = Inl TypeError"
    if "toml ''weight'' = Some v" "v \<noteq> TString ''None''" "\<forall>k. v \<noteq> TInteger k" "\<forall>b. v \<noteq> TBoolean b"
    using that by (cases v) (auto simp: process_weight_present)
  then show ?thesis
    by (simp add: process_weight_absent process_weight_present)
qed

theorem process_weight_resolution_witness:
  "process_weight Map.empty ''blog/post'' = Inr (Some 0) \<and>
   process_weight Map.empty ''blog/index'' = Inr None \<and>
   process_weight [''weight'' \<mapsto> TString ''None''] ''blog/post'' = Inr None \<and>
   process_weight [''weight'' \<mapsto> TInteger 7] ''blog/index'' = Inr (Some 7) \<and>
   process_weight [''weight'' \<mapsto> TString ''str''] ''blog/post'' = Inl TypeError"
proof -
  have a: "process_weight Map.empty ''blog/post'' = Inr (Some 0)"
    using process_weight_resolution [of Map.empty "''blog/post''"]
    by (simp add: endswith_def)
  have b: "process_weight Map.empty ''blog/index'' = Inr None"
    using process_weight_resolution [of Map.empty "''blog/index''"]
    by (simp add: endswith_def)
  have c: "process_weight [''weight'' \<mapsto> TString ''None''] ''blog/post'' = Inr None"
    using process_weight_resolution [of "[''weight'' \<mapsto> TString ''None'']" "''blog/post''"]
    by simp
  have d: "process_weight [''weight'' \<mapsto> TInteger 7] ''blog/index'' = Inr (Some 7)"
    using process_weight_resolution [of "[''weight'' \<mapsto> TInteger 7]" "''blog/index''" 7]
    by simp
  have e: "process_weight [''weight'' \<mapsto> TString ''str''] ''blog/post'' = Inl TypeError"
    using process_weight_resolution
      [of "[''weight'' \<mapsto> TString ''str'']" "''blog/post''" _ "TString ''str''"]
    by simp
  from a b c d e show ?thesis by simp
qed

text \<open>
  The claim as the specification words it fails: the page id \<open>reindex\<close> has the last relpath
  segment \<open>reindex\<close>, not \<open>index\<close>, and still resolves to the unweighted value when the
  field is absent, because the code tests the end of the whole id.
\<close>

theorem process_weight_last_segment_counterexample:
  "last_path_segment ''reindex'' \<noteq> ''index'' \<and> process_weight Map.empty ''reindex'' = Inr None"
  by (simp add: last_path_segment_def process_weight_def endswith_def)

end
